theory Spec2Isabelle
  imports Main "HOL-Library.Word" "HOL-Library.Monad_Syntax"
begin

section \<open>Size-constrained label propagation of KaDraw\<close>

text \<open>
  The development embeds \<^verbatim>\<open>size_constraint_label_propagation.cpp\<close>.

  The typedefs \<^verbatim>\<open>NodeID\<close>, \<^verbatim>\<open>PartitionID\<close>, \<^verbatim>\<open>NodeWeight\<close> and \<^verbatim>\<open>EdgeWeight\<close> live in a
  header that is not part of the file. Everything the code does arithmetic on (node weights,
  cluster sizes, accumulated votes, the capacity) is a machine integer \<open>'a word\<close> whose width
  \<open>'a\<close> is a parameter, so \<open>+\<close> and \<open>-\<close> wrap around as \<^verbatim>\<open>+=\<close> and \<^verbatim>\<open>-=\<close> on unsigned values do.
  Node indices and cluster ids are only compared, copied and used as subscripts (the one
  increment, of \<^verbatim>\<open>cur_no_clusters\<close>, is bounded by the node count), so they are \<open>nat\<close>.
\<close>

subsection \<open>Vectors\<close>

text \<open>
  \<^verbatim>\<open>std::vector::operator[]\<close> has no defined behaviour out of range. Reads and writes are
  checked here and a subscript out of range makes the whole run \<open>None\<close>.
\<close>

definition vec_at :: "'b list \<Rightarrow> nat \<Rightarrow> 'b option" where
  "vec_at xs i = (if i < length xs then Some (xs ! i) else None)"

definition vec_set :: "'b list \<Rightarrow> nat \<Rightarrow> 'b \<Rightarrow> 'b list option" where
  "vec_set xs i v = (if i < length xs then Some (xs[i := v]) else None)"

subsection \<open>The graph\<close>

text \<open>
  Modelled from the spec: the class \<^verbatim>\<open>graph_access\<close> is an external collaborator. The spec
  gives it nodes \<open>0..N-1\<close>, each with an integer weight, weighted edges with neighbour iteration
  per node, a partition label per node and a partition count. \<open>out_edges G ! u\<close> lists the
  pairs (target, weight) that \<^verbatim>\<open>forall_out_edges(G, e, u)\<close> visits, in its order.
\<close>

record (overloaded) 'a graph_access =
  node_weight :: "'a word list"
  out_edges :: "(nat \<times> 'a word) list list"
  partition_index :: "nat list"
  partition_count :: nat

definition number_of_nodes :: "'a::len graph_access \<Rightarrow> nat" where
  "number_of_nodes G = length (node_weight G)"

definition getNodeWeight :: "'a::len graph_access \<Rightarrow> nat \<Rightarrow> 'a word option" where
  "getNodeWeight G node = vec_at (node_weight G) node"

definition setPartitionIndex :: "'a::len graph_access \<Rightarrow> nat \<Rightarrow> nat \<Rightarrow> 'a graph_access option" where
  "setPartitionIndex G node c =
     do { p \<leftarrow> vec_set (partition_index G) node c; Some (G\<lparr>partition_index := p\<rparr>) }"

definition set_partition_count :: "'a::len graph_access \<Rightarrow> nat \<Rightarrow> 'a graph_access" where
  "set_partition_count G k = G\<lparr>partition_count := k\<rparr>"

text \<open>The contract of a well-formed graph: every array has one entry per node and every
  edge points at a node.\<close>

definition graph_ok :: "'a::len graph_access \<Rightarrow> bool" where
  "graph_ok G \<longleftrightarrow>
     length (out_edges G) = number_of_nodes G \<and>
     length (partition_index G) = number_of_nodes G \<and>
     (\<forall>es \<in> set (out_edges G). \<forall>e \<in> set es. fst e < number_of_nodes G)"

subsection \<open>\<^verbatim>\<open>remap_cluster_ids\<close>\<close>

text \<open>
  The first loop of \<^verbatim>\<open>remap_cluster_ids\<close>, over the nodes still to visit. The state is the
  \<^verbatim>\<open>unordered_map\<close> \<open>remap\<close>, the counter \<open>cur_no_clusters\<close> and the vector \<open>cluster_id\<close>,
  rewritten in place. \<^verbatim>\<open>remap[cur_cluster]\<close> on the right-hand side reads the entry (a missing
  key would read as the default 0).
\<close>

fun remap_loop ::
  "nat list \<Rightarrow> (nat \<rightharpoonup> nat) \<times> nat \<times> nat list \<Rightarrow> ((nat \<rightharpoonup> nat) \<times> nat \<times> nat list) option" where
  "remap_loop [] s = Some s"
| "remap_loop (node # ns) (remap, cur_no_clusters, cluster_id) =
     (case vec_at cluster_id node of
        None \<Rightarrow> None
      | Some cur_cluster \<Rightarrow>
          (let (remap', n') =
                 (if remap cur_cluster = None
                  then (remap(cur_cluster \<mapsto> cur_no_clusters), cur_no_clusters + 1)
                  else (remap, cur_no_clusters))
           in remap_loop ns
                (remap', n',
                 cluster_id[node := (case remap' cur_cluster of Some d \<Rightarrow> d | None \<Rightarrow> 0)])))"

text \<open>The loop under \<^verbatim>\<open>if( apply_to_graph )\<close>.\<close>

fun apply_loop :: "nat list \<Rightarrow> nat list \<Rightarrow> 'a::len graph_access \<Rightarrow> 'a graph_access option" where
  "apply_loop [] cluster_id G = Some G"
| "apply_loop (node # ns) cluster_id G =
     do { c \<leftarrow> vec_at cluster_id node;
          G' \<leftarrow> setPartitionIndex G node c;
          apply_loop ns cluster_id G' }"

text \<open>The result is the graph, the vector \<open>cluster_id\<close> and \<open>no_of_coarse_vertices\<close>.\<close>

definition remap_cluster_ids ::
  "'a::len graph_access \<Rightarrow> nat list \<Rightarrow> bool \<Rightarrow> ('a graph_access \<times> nat list \<times> nat) option" where
  "remap_cluster_ids G cluster_id apply_to_graph =
     do { (remap, cur_no_clusters, cluster_id') \<leftarrow>
            remap_loop [0..<number_of_nodes G] (Map.empty, 0, cluster_id);
          G' \<leftarrow> (if apply_to_graph
                 then do { G1 \<leftarrow> apply_loop [0..<number_of_nodes G] cluster_id' G;
                           Some (set_partition_count G1 cur_no_clusters) }
                 else Some G);
          Some (G', cluster_id', cur_no_clusters) }"

subsection \<open>\<^verbatim>\<open>label_propagation\<close>\<close>

text \<open>
  Modelled from the spec: \<^verbatim>\<open>random_functions::nextBool\<close> is external, a source of fair random
  bits. The bits are a parameter \<open>coins\<close>, and the position of the next one is part of the state.
\<close>

definition nextBool :: "(nat \<Rightarrow> bool) \<Rightarrow> nat \<Rightarrow> bool \<times> nat" where
  "nextBool coins r = (coins r, Suc r)"

text \<open>The working arrays of \<^verbatim>\<open>label_propagation\<close>, the pass-local \<^verbatim>\<open>change_counter\<close> and the
  position \<open>rnd\<close> in the random bits.\<close>

record (overloaded) 'a lp_state =
  hash_map :: "'a word list"
  cluster_sizes :: "'a word list"
  cluster_id :: "nat list"
  change_counter :: nat
  rnd :: nat

text \<open>The first sweep over the out-edges of a node: every edge adds its weight to the entry of
  its target's cluster.\<close>

fun scan_votes :: "nat list \<Rightarrow> (nat \<times> 'a::len word) list \<Rightarrow> 'a word list \<Rightarrow> 'a word list option" where
  "scan_votes cid [] h = Some h"
| "scan_votes cid ((target, w) # es) h =
     do { c \<leftarrow> vec_at cid target;
          v \<leftarrow> vec_at h c;
          scan_votes cid es (h[c := v + w]) }"

text \<open>
  The second sweep, on the accumulator \<open>(hash_map, max_value, max_block, rnd)\<close>. The condition
  of the \<^verbatim>\<open>if\<close> is evaluated left to right with short-circuit: a random bit is drawn only when
  \<open>cur_value = max_value\<close>, and \<open>cluster_sizes[cur_block]\<close> is read only when the left conjunct
  holds.
\<close>

fun scan_max ::
  "(nat \<Rightarrow> bool) \<Rightarrow> 'a::len word \<Rightarrow> 'a word list \<Rightarrow> nat list \<Rightarrow> 'a word \<Rightarrow> nat \<Rightarrow>
   (nat \<times> 'a word) list \<Rightarrow> 'a word list \<times> 'a word \<times> nat \<times> nat \<Rightarrow>
   ('a word list \<times> 'a word \<times> nat \<times> nat) option" where
  "scan_max coins block_upperbound sizes cid nw my_block [] s = Some s"
| "scan_max coins block_upperbound sizes cid nw my_block ((target, w) # es)
     (h, max_value, max_block, r) =
     do { cur_block \<leftarrow> vec_at cid target;
          cur_value \<leftarrow> vec_at h cur_block;
          (better, r') \<leftarrow> Some (if cur_value > max_value then (True, r)
                                else if cur_value = max_value then nextBool coins r
                                else (False, r));
          accept \<leftarrow> (if better
                     then do { s \<leftarrow> vec_at sizes cur_block;
                               Some (s + nw \<le> block_upperbound \<or> cur_block = my_block) }
                     else Some False);
          scan_max coins block_upperbound sizes cid nw my_block es
            (h[cur_block := 0],
             if accept then cur_value else max_value,
             if accept then cur_block else max_block,
             r') }"

text \<open>The body of the inner loop for one node: the two sweeps and the commit.\<close>

definition process_node ::
  "(nat \<Rightarrow> bool) \<Rightarrow> 'a::len graph_access \<Rightarrow> 'a word \<Rightarrow> 'a lp_state \<Rightarrow> nat \<Rightarrow> 'a lp_state option" where
  "process_node coins G block_upperbound st node =
     do { es \<leftarrow> vec_at (out_edges G) node;
          nw \<leftarrow> getNodeWeight G node;
          h1 \<leftarrow> scan_votes (cluster_id st) es (hash_map st);
          my_block \<leftarrow> vec_at (cluster_id st) node;
          (h2, max_value, max_block, r) \<leftarrow>
            scan_max coins block_upperbound (cluster_sizes st) (cluster_id st) nw my_block es
              (h1, 0, my_block, rnd st);
          s_old \<leftarrow> vec_at (cluster_sizes st) my_block;
          sizes1 \<leftarrow> vec_set (cluster_sizes st) my_block (s_old - nw);
          s_new \<leftarrow> vec_at sizes1 max_block;
          sizes2 \<leftarrow> vec_set sizes1 max_block (s_new + nw);
          cid' \<leftarrow> vec_set (cluster_id st) node max_block;
          Some (st\<lparr>hash_map := h2,
                   cluster_sizes := sizes2,
                   cluster_id := cid',
                   change_counter := change_counter st + (if my_block \<noteq> max_block then 1 else 0),
                   rnd := r\<rparr>) }"

text \<open>\<^verbatim>\<open>forall_nodes(G, i)\<close> inside a pass, over the positions still to visit.\<close>

fun lp_nodes ::
  "(nat \<Rightarrow> bool) \<Rightarrow> 'a::len graph_access \<Rightarrow> 'a word \<Rightarrow> nat list \<Rightarrow> nat list \<Rightarrow> 'a lp_state \<Rightarrow>
   'a lp_state option" where
  "lp_nodes coins G block_upperbound permutation [] st = Some st"
| "lp_nodes coins G block_upperbound permutation (i # is) st =
     do { node \<leftarrow> vec_at permutation i;
          st' \<leftarrow> process_node coins G block_upperbound st node;
          lp_nodes coins G block_upperbound permutation is st' }"

text \<open>The loop over \<open>j\<close>, by the number of passes still to run.\<close>

fun lp_passes ::
  "(nat \<Rightarrow> bool) \<Rightarrow> 'a::len graph_access \<Rightarrow> 'a word \<Rightarrow> nat list \<Rightarrow> nat \<Rightarrow> 'a lp_state \<Rightarrow>
   'a lp_state option" where
  "lp_passes coins G block_upperbound permutation 0 st = Some st"
| "lp_passes coins G block_upperbound permutation (Suc n) st =
     do { st' \<leftarrow> lp_nodes coins G block_upperbound permutation [0..<number_of_nodes G]
                   (st\<lparr>change_counter := 0\<rparr>);
          lp_passes coins G block_upperbound permutation n st' }"

text \<open>The arrays after the initialisation loop: every node is its own cluster.\<close>

definition lp_init :: "'a::len graph_access \<Rightarrow> nat \<Rightarrow> 'a lp_state" where
  "lp_init G r =
     \<lparr>hash_map = replicate (number_of_nodes G) 0,
      cluster_sizes = map (\<lambda>node. node_weight G ! node) [0..<number_of_nodes G],
      cluster_id = [0..<number_of_nodes G],
      change_counter = 0,
      rnd = r\<rparr>"

text \<open>
  \<^verbatim>\<open>label_propagation\<close> with the capacity given. The permutation is what the external
  \<^verbatim>\<open>order_nodes\<close> has filled in; \<open>label_iterations\<close> is compared with the \<^verbatim>\<open>int\<close> counter \<open>j\<close>;
  \<open>apply_to_graph\<close> is the default argument of \<^verbatim>\<open>remap_cluster_ids\<close>, declared in the header.
  The result is the graph, \<open>cluster_id\<close>, \<open>no_of_blocks\<close> and the position in the random bits.
\<close>

definition label_propagation ::
  "(nat \<Rightarrow> bool) \<Rightarrow> nat \<Rightarrow> bool \<Rightarrow> 'a::len graph_access \<Rightarrow> 'a word \<Rightarrow> nat list \<Rightarrow> int \<Rightarrow>
   ('a graph_access \<times> nat list \<times> nat \<times> nat) option" where
  "label_propagation coins r apply_to_graph G block_upperbound permutation label_iterations =
     do { st \<leftarrow> lp_passes coins G block_upperbound permutation (nat label_iterations) (lp_init G r);
          (G', cid', no_of_blocks) \<leftarrow> remap_cluster_ids G (cluster_id st) apply_to_graph;
          Some (G', cid', no_of_blocks, rnd st) }"

text \<open>The state of the arrays after \<open>j\<close> whole passes and the first \<open>i\<close> nodes of the next
  pass: the points between two node visits.\<close>

definition lp_at ::
  "(nat \<Rightarrow> bool) \<Rightarrow> nat \<Rightarrow> 'a::len graph_access \<Rightarrow> 'a word \<Rightarrow> nat list \<Rightarrow> nat \<Rightarrow> nat \<Rightarrow>
   'a lp_state option" where
  "lp_at coins r G block_upperbound permutation j i =
     do { st \<leftarrow> lp_passes coins G block_upperbound permutation j (lp_init G r);
          lp_nodes coins G block_upperbound permutation [0..<i] (st\<lparr>change_counter := 0\<rparr>) }"

text \<open>The contract of the node ordering, as far as the loop depends on it: one entry per
  position, each of them a node.\<close>

definition permutation_ok :: "'a::len graph_access \<Rightarrow> nat list \<Rightarrow> bool" where
  "permutation_ok G permutation \<longleftrightarrow>
     length permutation = number_of_nodes G \<and> (\<forall>node \<in> set permutation. node < number_of_nodes G)"

subsection \<open>Invariants\<close>

text \<open>
  The state of the first loop of \<^verbatim>\<open>remap_cluster_ids\<close> after the nodes below \<open>i\<close>, for the
  initial vector \<open>cid0\<close>: the nodes below \<open>i\<close> hold their dense ids, the others their old ids;
  \<open>remap\<close> is defined on the old ids seen so far, injective, and onto the ids below the counter.
\<close>

definition remap_inv :: "nat list \<Rightarrow> nat \<Rightarrow> (nat \<rightharpoonup> nat) \<times> nat \<times> nat list \<Rightarrow> bool" where
  "remap_inv cid0 i s =
     (case s of (m, k, cid) \<Rightarrow>
        length cid = length cid0 \<and>
        (\<forall>j<i. m (cid0 ! j) = Some (cid ! j)) \<and>
        (\<forall>j. i \<le> j \<longrightarrow> j < length cid0 \<longrightarrow> cid ! j = cid0 ! j) \<and>
        dom m = set (take i cid0) \<and>
        (\<forall>a b d. m a = Some d \<longrightarrow> m b = Some d \<longrightarrow> a = b) \<and>
        (\<forall>a d. m a = Some d \<longrightarrow> d < k) \<and>
        (\<forall>d<k. \<exists>a. m a = Some d) \<and>
        k = card (set (take i cid0)) \<and>
        (\<forall>j<i. cid ! j \<le> j))"

text \<open>The weight of the nodes that \<open>cid\<close> puts in cluster \<open>c\<close>, in machine arithmetic.\<close>

definition cluster_weight :: "'a::len graph_access \<Rightarrow> nat list \<Rightarrow> nat \<Rightarrow> 'a word" where
  "cluster_weight G cid c = (\<Sum>v<number_of_nodes G. if cid ! v = c then node_weight G ! v else 0)"

text \<open>
  What holds of the arrays between two node visits: the accumulator is all zero, the arrays
  have one entry per node, every cluster id is a node, and the tracked size of a cluster is
  the weight of its nodes.
\<close>

definition lp_inv :: "'a::len graph_access \<Rightarrow> 'a lp_state \<Rightarrow> bool" where
  "lp_inv G st \<longleftrightarrow>
     hash_map st = replicate (number_of_nodes G) 0 \<and>
     length (cluster_sizes st) = number_of_nodes G \<and>
     length (cluster_id st) = number_of_nodes G \<and>
     (\<forall>c \<in> set (cluster_id st). c < number_of_nodes G) \<and>
     (\<forall>c < number_of_nodes G. cluster_sizes st ! c = cluster_weight G (cluster_id st) c)"

subsection \<open>Notions used in the statements\<close>

text \<open>The accumulator as the second sweep of node \<open>u\<close> finds it: the votes of the clusters
  around \<open>u\<close>.\<close>

definition votes :: "'a::len graph_access \<Rightarrow> 'a lp_state \<Rightarrow> nat \<Rightarrow> 'a word list option" where
  "votes G st u = scan_votes (cluster_id st) (out_edges G ! u) (hash_map st)"

text \<open>The capacity test of the second sweep for a move of \<open>u\<close> into cluster \<open>c\<close>.\<close>

definition eligible :: "'a::len graph_access \<Rightarrow> 'a word \<Rightarrow> 'a lp_state \<Rightarrow> nat \<Rightarrow> nat \<Rightarrow> bool" where
  "eligible G block_upperbound st u c \<longleftrightarrow>
     cluster_sizes st ! c + node_weight G ! u \<le> block_upperbound \<or> c = cluster_id st ! u"

text \<open>Node \<open>u\<close> has a neighbour in its own cluster, and the vote of that cluster is greater
  than the vote of every other cluster around \<open>u\<close>.\<close>

definition own_cluster_leads :: "'a::len graph_access \<Rightarrow> 'a lp_state \<Rightarrow> nat \<Rightarrow> bool" where
  "own_cluster_leads G st u \<longleftrightarrow>
     (case votes G st u of
        None \<Rightarrow> False
      | Some h \<Rightarrow>
          (\<exists>e \<in> set (out_edges G ! u). cluster_id st ! fst e = cluster_id st ! u) \<and>
          (\<forall>e \<in> set (out_edges G ! u).
             cluster_id st ! fst e \<noteq> cluster_id st ! u \<longrightarrow>
             h ! (cluster_id st ! fst e) < h ! (cluster_id st ! u)))"

text \<open>No cluster around \<open>u\<close> has both a vote above 0 and room for \<open>u\<close>.\<close>

definition no_eligible_vote_above_zero ::
  "'a::len graph_access \<Rightarrow> 'a word \<Rightarrow> 'a lp_state \<Rightarrow> nat \<Rightarrow> bool" where
  "no_eligible_vote_above_zero G block_upperbound st u \<longleftrightarrow>
     (case votes G st u of
        None \<Rightarrow> False
      | Some h \<Rightarrow>
          (\<forall>e \<in> set (out_edges G ! u).
             \<not> (0 < h ! (cluster_id st ! fst e) \<and>
                eligible G block_upperbound st u (cluster_id st ! fst e))))"

text \<open>Node \<open>u\<close> is, after its visit, in a cluster around it that had vote 0 and room for \<open>u\<close>,
  and one of the random bits drawn during the visit was 1.\<close>

definition won_tie_at_zero ::
  "(nat \<Rightarrow> bool) \<Rightarrow> 'a::len graph_access \<Rightarrow> 'a word \<Rightarrow> 'a lp_state \<Rightarrow> 'a lp_state \<Rightarrow> nat \<Rightarrow> bool" where
  "won_tie_at_zero coins G block_upperbound st st' u \<longleftrightarrow>
     (case votes G st u of
        None \<Rightarrow> False
      | Some h \<Rightarrow>
          h ! (cluster_id st' ! u) = 0 \<and>
          eligible G block_upperbound st u (cluster_id st' ! u) \<and>
          (\<exists>e \<in> set (out_edges G ! u). cluster_id st ! fst e = cluster_id st' ! u) \<and>
          (\<exists>k \<in> {rnd st..<rnd st'}. coins k))"

text \<open>The accumulator, best value, best block and position in the random bits of the
  second sweep of node \<open>u\<close> after its first \<open>k\<close> edges.\<close>

definition sweep_prefix ::
  "(nat \<Rightarrow> bool) \<Rightarrow> 'a::len graph_access \<Rightarrow> 'a word \<Rightarrow> 'a lp_state \<Rightarrow> nat \<Rightarrow> nat \<Rightarrow>
   ('a word list \<times> 'a word \<times> nat \<times> nat) option" where
  "sweep_prefix coins G block_upperbound st u k =
     (case votes G st u of
        None \<Rightarrow> None
      | Some h1 \<Rightarrow>
          scan_max coins block_upperbound (cluster_sizes st) (cluster_id st) (node_weight G ! u)
            (cluster_id st ! u) (take k (out_edges G ! u)) (h1, 0, cluster_id st ! u, rnd st))"

subsection \<open>Example inputs\<close>

text \<open>A path \<open>0 - 1 - 2 - 3\<close> of unit node weights with a heavier first edge, and an
  isolated node 4, on 32-bit integers.\<close>

definition example_graph :: "32 graph_access" where
  "example_graph =
     \<lparr>node_weight = [1, 1, 1, 1, 1],
      out_edges = [[(1, 2)], [(0, 2), (2, 1)], [(1, 1), (3, 1)], [(2, 1)], []],
      partition_index = [0, 0, 0, 0, 0],
      partition_count = 0\<rparr>"

text \<open>Two nodes joined by an edge of weight 0.\<close>

definition zero_edge_graph :: "32 graph_access" where
  "zero_edge_graph =
     \<lparr>node_weight = [1, 1],
      out_edges = [[(1, 0)], [(0, 0)]],
      partition_index = [0, 0],
      partition_count = 0\<rparr>"

text \<open>A path \<open>0 - 1 - 2\<close> of unit weights; the middle node lists its edge to node 2
  first.\<close>

definition tie_graph :: "32 graph_access" where
  "tie_graph =
     \<lparr>node_weight = [1, 1, 1],
      out_edges = [[(1, 1)], [(2, 1), (0, 1)], [(1, 1)]],
      partition_index = [0, 0, 0],
      partition_count = 0\<rparr>"

text \<open>Random bits that are all 1, and all 0.\<close>

definition coins_true :: "nat \<Rightarrow> bool" where
  "coins_true k = True"

definition coins_false :: "nat \<Rightarrow> bool" where
  "coins_false k = False"

section \<open>Properties of \<^verbatim>\<open>remap_cluster_ids\<close>\<close>

lemma remap_inv_init: "remap_inv cid0 0 (Map.empty, 0, cid0)"
  by (simp add: remap_inv_def)

lemma card_take_le: "card (set (take i xs)) \<le> i"
  by (metis card_length length_take min.cobounded2 order_trans)

lemma remap_inv_step:
  assumes inv: "remap_inv cid0 i (m, k, cid)" and i: "i < length cid0"
  shows "\<exists>s'. remap_loop [i] (m, k, cid) = Some s' \<and> remap_inv cid0 (Suc i) s'"
proof -
  from inv have len: "length cid = length cid0"
    and old: "\<And>j. j < i \<Longrightarrow> m (cid0 ! j) = Some (cid ! j)"
    and rest: "\<And>j. i \<le> j \<Longrightarrow> j < length cid0 \<Longrightarrow> cid ! j = cid0 ! j"
    and dom: "dom m = set (take i cid0)"
    and inj: "\<And>a b d. m a = Some d \<Longrightarrow> m b = Some d \<Longrightarrow> a = b"
    and bound: "\<And>a d. m a = Some d \<Longrightarrow> d < k"
    and surj: "\<And>d. d < k \<Longrightarrow> \<exists>a. m a = Some d"
    and k: "k = card (set (take i cid0))"
    and le: "\<And>j. j < i \<Longrightarrow> cid ! j \<le> j"
    by (auto simp: remap_inv_def)
  let ?c = "cid0 ! i"
  have ci: "cid ! i = ?c" using rest i by simp
  have take: "set (take (Suc i) cid0) = insert ?c (set (take i cid0))"
    using i by (simp add: take_Suc_conv_app_nth)
  have ki: "k \<le> i" using k card_take_le by simp
  show ?thesis
  proof (cases "m ?c")
    case None
    then have notin: "?c \<notin> set (take i cid0)" using dom by auto
    have run: "remap_loop [i] (m, k, cid) = Some (m(?c \<mapsto> k), Suc k, cid[i := k])"
      using None i len ci by (simp add: vec_at_def)
    have neq: "\<And>j. j < i \<Longrightarrow> cid0 ! j \<noteq> ?c"
      using old None by fastforce
    have "remap_inv cid0 (Suc i) (m(?c \<mapsto> k), Suc k, cid[i := k])"
      unfolding remap_inv_def prod.case
    proof (intro conjI allI impI)
      show "length (cid[i := k]) = length cid0" using len by simp
    next
      fix j assume "j < Suc i"
      then show "(m(?c \<mapsto> k)) (cid0 ! j) = Some (cid[i := k] ! j)"
        using old neq i len by (cases "j = i") auto
    next
      fix j assume "Suc i \<le> j" "j < length cid0"
      then show "cid[i := k] ! j = cid0 ! j" using rest by simp
    next
      show "dom (m(?c \<mapsto> k)) = set (take (Suc i) cid0)" using dom take by simp
    next
      fix a b d assume "(m(?c \<mapsto> k)) a = Some d" "(m(?c \<mapsto> k)) b = Some d"
      then show "a = b" using inj by (auto split: if_splits dest: bound)
    next
      fix a d assume "(m(?c \<mapsto> k)) a = Some d"
      then show "d < Suc k" using bound by (auto split: if_splits simp: less_Suc_eq)
    next
      fix d assume "d < Suc k"
      show "\<exists>a. (m(?c \<mapsto> k)) a = Some d"
      proof (cases "d = k")
        case True
        then show ?thesis by (intro exI [of _ ?c]) simp
      next
        case False
        with \<open>d < Suc k\<close> have "d < k" by simp
        then obtain a where a: "m a = Some d" using surj by blast
        with None have "a \<noteq> ?c" by auto
        with a show ?thesis by (intro exI [of _ a]) simp
      qed
    next
      show "Suc k = card (set (take (Suc i) cid0))" using k take notin by simp
    next
      fix j assume "j < Suc i"
      then show "cid[i := k] ! j \<le> j" using le ki i len by (cases "j = i") auto
    qed
    with run show ?thesis by blast
  next
    case (Some d)
    then have "in": "?c \<in> set (take i cid0)" using dom by auto
    have run: "remap_loop [i] (m, k, cid) = Some (m, k, cid[i := d])"
      using Some i len ci by (simp add: vec_at_def)
    have dk: "d < k" using bound Some by blast
    have "remap_inv cid0 (Suc i) (m, k, cid[i := d])"
      unfolding remap_inv_def prod.case
    proof (intro conjI allI impI)
      show "length (cid[i := d]) = length cid0" using len by simp
    next
      fix j assume "j < Suc i"
      then show "m (cid0 ! j) = Some (cid[i := d] ! j)"
        using old Some i len by (cases "j = i") auto
    next
      fix j assume "Suc i \<le> j" "j < length cid0"
      then show "cid[i := d] ! j = cid0 ! j" using rest by simp
    next
      show "dom m = set (take (Suc i) cid0)" using dom take "in" by auto
    next
      fix a b d assume "m a = Some d" "m b = Some d"
      then show "a = b" using inj by blast
    next
      fix a d assume "m a = Some d"
      then show "d < k" using bound by blast
    next
      fix d assume "d < k"
      then show "\<exists>a. m a = Some d" using surj by blast
    next
      show "k = card (set (take (Suc i) cid0))" using k take "in" by (simp add: insert_absorb)
    next
      fix j assume "j < Suc i"
      then show "cid[i := d] ! j \<le> j" using le ki dk i len by (cases "j = i") auto
    qed
    with run show ?thesis by blast
  qed
qed

lemma remap_loop_append:
  "remap_loop (xs @ ys) s = (case remap_loop xs s of None \<Rightarrow> None | Some s' \<Rightarrow> remap_loop ys s')"
proof (induction xs arbitrary: s)
  case Nil
  show ?case by simp
next
  case (Cons x xs)
  obtain m k cid where s: "s = (m, k, cid)" by (cases s)
  show ?case unfolding s
    by (simp add: Cons.IH Let_def split: option.splits prod.splits)
qed

lemma remap_loop_inv:
  "n \<le> length cid0 \<Longrightarrow>
   \<exists>s'. remap_loop [0..<n] (Map.empty, 0, cid0) = Some s' \<and> remap_inv cid0 n s'"
proof (induction n)
  case 0
  show ?case by (simp add: remap_inv_init)
next
  case (Suc n)
  then obtain s' where run: "remap_loop [0..<n] (Map.empty, 0, cid0) = Some s'"
    and inv: "remap_inv cid0 n s'" by auto
  obtain m k cid where s': "s' = (m, k, cid)" by (cases s')
  from remap_inv_step [OF inv [unfolded s']] Suc.prems
  obtain s'' where "remap_loop [n] (m, k, cid) = Some s''" "remap_inv cid0 (Suc n) s''"
    by auto
  then show ?case using run s' by (simp add: remap_loop_append)
qed


lemma apply_loop_append:
  "apply_loop (xs @ ys) cid G =
     (case apply_loop xs cid G of None \<Rightarrow> None | Some G' \<Rightarrow> apply_loop ys cid G')"
  by (induction xs arbitrary: G) (auto split: Option.bind_splits)

lemma apply_loop_prefix:
  "n \<le> length cid \<Longrightarrow> n \<le> length (partition_index G) \<Longrightarrow>
   apply_loop [0..<n] cid G =
     Some (G\<lparr>partition_index := take n cid @ drop n (partition_index G)\<rparr>)"
proof (induction n)
  case 0
  show ?case by simp
next
  case (Suc n)
  have "(take n cid @ drop n (partition_index G))[n := cid ! n] =
        take (Suc n) cid @ drop (Suc n) (partition_index G)"
    using Suc.prems
    by (simp add: list_update_append take_Suc_conv_app_nth upd_conv_take_nth_drop)
  with Suc show ?case
    by (simp add: apply_loop_append setPartitionIndex_def vec_at_def vec_set_def)
qed

lemma remap_cluster_ids_inv:
  assumes "length cid = number_of_nodes G"
    and "apply_to_graph \<longrightarrow> length (partition_index G) = number_of_nodes G"
  shows "\<exists>m k cid'.
           remap_inv cid (number_of_nodes G) (m, k, cid') \<and>
           remap_cluster_ids G cid apply_to_graph =
             Some (if apply_to_graph then G\<lparr>partition_index := cid', partition_count := k\<rparr> else G,
                   cid', k)"
proof -
  from remap_loop_inv [of "number_of_nodes G" cid] assms(1)
  obtain m k cid' where
    run: "remap_loop [0..<number_of_nodes G] (Map.empty, 0, cid) = Some (m, k, cid')"
    and inv: "remap_inv cid (number_of_nodes G) (m, k, cid')"
    by (metis order_refl prod_cases3)
  from inv have len: "length cid' = length cid" by (simp add: remap_inv_def)
  show ?thesis
  proof (cases apply_to_graph)
    case False
    with run inv show ?thesis by (auto simp: remap_cluster_ids_def)
  next
    case True
    with assms len have
      "apply_loop [0..<number_of_nodes G] cid' G = Some (G\<lparr>partition_index := cid'\<rparr>)"
      using apply_loop_prefix [of "number_of_nodes G" cid' G] by simp
    with True run inv show ?thesis
      by (auto simp: remap_cluster_ids_def set_partition_count_def)
  qed
qed

subsection \<open>The claims about the remapper\<close>

text \<open>
  Claim C5. After \<open>remap_cluster_ids\<close> on a vector with one entry per node, the ids in the
  vector are exactly \<open>0, \<dots>, k - 1\<close>, where \<open>k\<close> is the number of distinct ids before the
  remapping, and \<open>k\<close> is the value stored into \<open>no_of_coarse_vertices\<close>. (With no node at all
  both sets are empty and \<open>k = 0\<close>, so the graph need not have a node.)
\<close>

theorem remap_cluster_ids_dense:
  assumes "length cid = number_of_nodes G"
    and "apply_to_graph \<longrightarrow> length (partition_index G) = number_of_nodes G"
  shows "\<exists>G' cid' k.
           remap_cluster_ids G cid apply_to_graph = Some (G', cid', k) \<and>
           length cid' = number_of_nodes G \<and>
           set cid' = {0..<k} \<and> k = card (set cid)"
proof -
  from remap_cluster_ids_inv [OF assms] obtain m k cid' G' where
    inv: "remap_inv cid (number_of_nodes G) (m, k, cid')"
    and run: "remap_cluster_ids G cid apply_to_graph = Some (G', cid', k)"
    by blast
  let ?n = "number_of_nodes G"
  from inv assms(1) have len: "length cid' = ?n"
    and img: "\<And>j. j < ?n \<Longrightarrow> m (cid ! j) = Some (cid' ! j)"
    and bound: "\<And>a d. m a = Some d \<Longrightarrow> d < k"
    and surj: "\<And>d. d < k \<Longrightarrow> \<exists>a. m a = Some d"
    and dom: "dom m = set cid"
    and k: "k = card (set cid)"
    by (auto simp: remap_inv_def)
  have "set cid' = {0..<k}"
  proof (intro equalityI subsetI)
    fix d assume "d \<in> set cid'"
    then obtain j where "j < ?n" "cid' ! j = d" using len by (auto simp: in_set_conv_nth)
    then show "d \<in> {0..<k}" using img bound by fastforce
  next
    fix d assume "d \<in> {0..<k}"
    then obtain a where a: "m a = Some d" using surj by auto
    then have "a \<in> set cid" using dom by auto
    then obtain j where j: "j < ?n" "cid ! j = a"
      using assms(1) by (auto simp: in_set_conv_nth)
    with img a have "cid' ! j = d" by fastforce
    with j len show "d \<in> set cid'" by (auto simp: in_set_conv_nth)
  qed
  with run len k show ?thesis by blast
qed

theorem remap_cluster_ids_dense_witness:
  "\<exists>G' cid' k.
     remap_cluster_ids example_graph [7, 2, 7, 5, 2] True = Some (G', cid', k) \<and>
     length cid' = number_of_nodes example_graph \<and>
     set cid' = {0..<k} \<and> k = card (set [7, 2, 7, 5, 2 :: nat])"
  using remap_cluster_ids_dense [of "[7, 2, 7, 5, 2]" example_graph True]
  by (simp add: example_graph_def number_of_nodes_def)

text \<open>
  Claim C6. \<open>remap_cluster_ids\<close> keeps the grouping: two nodes have the same id after the
  remapping if and only if they had the same id before.
\<close>

theorem remap_cluster_ids_grouping:
  assumes "length cid = number_of_nodes G"
    and "apply_to_graph \<longrightarrow> length (partition_index G) = number_of_nodes G"
  shows "\<exists>G' cid' k.
           remap_cluster_ids G cid apply_to_graph = Some (G', cid', k) \<and>
           (\<forall>u < number_of_nodes G. \<forall>v < number_of_nodes G.
              (cid' ! u = cid' ! v) = (cid ! u = cid ! v))"
proof -
  from remap_cluster_ids_inv [OF assms] obtain m k cid' G' where
    inv: "remap_inv cid (number_of_nodes G) (m, k, cid')"
    and run: "remap_cluster_ids G cid apply_to_graph = Some (G', cid', k)"
    by blast
  let ?n = "number_of_nodes G"
  from inv have img: "\<And>j. j < ?n \<Longrightarrow> m (cid ! j) = Some (cid' ! j)"
    and inj: "\<And>a b d. m a = Some d \<Longrightarrow> m b = Some d \<Longrightarrow> a = b"
    by (auto simp: remap_inv_def)
  have "(cid' ! u = cid' ! v) = (cid ! u = cid ! v)"
    if "u < ?n" "v < ?n" for u v
  proof
    assume "cid' ! u = cid' ! v"
    with img [OF that(1)] img [OF that(2)] show "cid ! u = cid ! v"
      using inj by simp
  next
    assume "cid ! u = cid ! v"
    with img [OF that(1)] img [OF that(2)] show "cid' ! u = cid' ! v" by simp
  qed
  with run show ?thesis by blast
qed

theorem remap_cluster_ids_grouping_witness:
  "\<exists>G' cid' k.
     remap_cluster_ids example_graph [7, 2, 7, 5, 2] False = Some (G', cid', k) \<and>
     (\<forall>u < number_of_nodes example_graph. \<forall>v < number_of_nodes example_graph.
        (cid' ! u = cid' ! v) = ([7, 2, 7, 5, 2 :: nat] ! u = [7, 2, 7, 5, 2] ! v))"
  using remap_cluster_ids_grouping [of "[7, 2, 7, 5, 2]" example_graph False]
  by (simp add: example_graph_def number_of_nodes_def)

text \<open>
  Claim C10. After \<open>remap_cluster_ids\<close> the id of every node \<open>u\<close> is at most \<open>u\<close>, and at most
  the index of any node that was in the same cluster, so at most the index of the first of
  them; node 0 of a graph with a node has id 0, and the reported count is at most the number
  of nodes.
\<close>

theorem remap_cluster_ids_le_index:
  assumes "length cid = number_of_nodes G"
    and "apply_to_graph \<longrightarrow> length (partition_index G) = number_of_nodes G"
  shows "\<exists>G' cid' k.
           remap_cluster_ids G cid apply_to_graph = Some (G', cid', k) \<and>
           (\<forall>u < number_of_nodes G. cid' ! u \<le> u) \<and>
           (\<forall>u < number_of_nodes G. \<forall>v < number_of_nodes G.
              cid ! v = cid ! u \<longrightarrow> cid' ! u \<le> v) \<and>
           (0 < number_of_nodes G \<longrightarrow> cid' ! 0 = 0) \<and>
           k \<le> number_of_nodes G"
proof -
  from remap_cluster_ids_inv [OF assms] obtain m k cid' G' where
    inv: "remap_inv cid (number_of_nodes G) (m, k, cid')"
    and run: "remap_cluster_ids G cid apply_to_graph = Some (G', cid', k)"
    by blast
  from inv have le: "\<forall>u < number_of_nodes G. cid' ! u \<le> u"
    and img: "\<And>j. j < number_of_nodes G \<Longrightarrow> m (cid ! j) = Some (cid' ! j)"
    and k: "k = card (set (take (number_of_nodes G) cid))"
    by (auto simp: remap_inv_def)
  have first: "cid' ! u \<le> v"
    if "u < number_of_nodes G" "v < number_of_nodes G" "cid ! v = cid ! u" for u v
  proof -
    from img [OF that(1)] img [OF that(2)] that(3) have "cid' ! u = cid' ! v" by simp
    with le that(2) show ?thesis by simp
  qed
  from k have "k \<le> number_of_nodes G" using card_take_le by simp
  moreover from le have "0 < number_of_nodes G \<longrightarrow> cid' ! 0 = 0" by auto
  ultimately show ?thesis using run le first by blast
qed

theorem remap_cluster_ids_le_index_witness:
  "\<exists>G' cid' k.
     remap_cluster_ids example_graph [7, 2, 7, 5, 2] False = Some (G', cid', k) \<and>
     (\<forall>u < number_of_nodes example_graph. cid' ! u \<le> u) \<and>
     (\<forall>u < number_of_nodes example_graph. \<forall>v < number_of_nodes example_graph.
        [7, 2, 7, 5, 2 :: nat] ! v = [7, 2, 7, 5, 2] ! u \<longrightarrow> cid' ! u \<le> v) \<and>
     (0 < number_of_nodes example_graph \<longrightarrow> cid' ! 0 = 0) \<and>
     k \<le> number_of_nodes example_graph"
  using remap_cluster_ids_le_index [of "[7, 2, 7, 5, 2]" example_graph False]
  by (simp add: example_graph_def number_of_nodes_def)

text \<open>
  Claim C9. With \<open>apply_to_graph = false\<close>, \<open>remap_cluster_ids\<close> returns the graph as it
  was: no partition label is written and the partition count is not set. With
  \<open>apply_to_graph = true\<close> the same vector and count come out, and the graph has the vector
  as its partition labels and the count as its partition count.
\<close>

theorem remap_cluster_ids_apply_to_graph:
  assumes "length cid = number_of_nodes G"
  shows "\<exists>cid' k.
           remap_cluster_ids G cid False = Some (G, cid', k) \<and>
           (length (partition_index G) = number_of_nodes G \<longrightarrow>
            remap_cluster_ids G cid True =
              Some (G\<lparr>partition_index := cid', partition_count := k\<rparr>, cid', k))"
proof -
  from remap_cluster_ids_inv [of cid G False] assms
  obtain cid' k where f: "remap_cluster_ids G cid False = Some (G, cid', k)"
    by auto
  have "remap_cluster_ids G cid True =
          Some (G\<lparr>partition_index := cid', partition_count := k\<rparr>, cid', k)"
    if "length (partition_index G) = number_of_nodes G"
  proof -
    from remap_cluster_ids_inv [of cid G True] assms that
    obtain cid'' k' where t: "remap_cluster_ids G cid True =
        Some (G\<lparr>partition_index := cid'', partition_count := k'\<rparr>, cid'', k')"
      by auto
    from f t have "cid'' = cid' \<and> k' = k"
      by (auto simp: remap_cluster_ids_def split: Option.bind_splits)
    with t show ?thesis by simp
  qed
  with f show ?thesis by blast
qed

theorem remap_cluster_ids_apply_to_graph_witness:
  "\<exists>cid' k.
     remap_cluster_ids example_graph [7, 2, 7, 5, 2] False = Some (example_graph, cid', k) \<and>
     remap_cluster_ids example_graph [7, 2, 7, 5, 2] True =
       Some (example_graph\<lparr>partition_index := cid', partition_count := k\<rparr>, cid', k)"
  using remap_cluster_ids_apply_to_graph [of "[7, 2, 7, 5, 2]" example_graph]
  by (simp add: example_graph_def number_of_nodes_def)

section \<open>Properties of \<^verbatim>\<open>label_propagation\<close>\<close>

lemma scan_votes_Cons:
  "t < length cid \<Longrightarrow> cid ! t < length h \<Longrightarrow>
   scan_votes cid ((t, w) # es) h = scan_votes cid es (h[cid ! t := h ! (cid ! t) + w])"
  by (simp add: vec_at_def)

lemma scan_votes_ok:
  "\<forall>e \<in> set es. fst e < length cid \<Longrightarrow> \<forall>c \<in> set cid. c < length h \<Longrightarrow>
   \<exists>h'. scan_votes cid es h = Some h' \<and> length h' = length h \<and>
        (\<forall>c. c \<notin> (\<lambda>e. cid ! fst e) ` set es \<longrightarrow> h' ! c = h ! c)"
proof (induction es arbitrary: h)
  case Nil
  show ?case by simp
next
  case (Cons e es)
  obtain t w where e: "e = (t, w)" by (cases e)
  from Cons.prems e have t: "t < length cid" and c: "cid ! t < length h" by auto
  let ?h = "h[cid ! t := h ! (cid ! t) + w]"
  from Cons.prems have "\<forall>e \<in> set es. fst e < length cid" "\<forall>c \<in> set cid. c < length ?h"
    by auto
  from Cons.IH [OF this] obtain h' where
    run: "scan_votes cid es ?h = Some h'" and len: "length h' = length h"
    and same: "\<forall>c. c \<notin> (\<lambda>e. cid ! fst e) ` set es \<longrightarrow> h' ! c = ?h ! c"
    by auto
  have "scan_votes cid (e # es) h = Some h'"
    unfolding e using run by (simp only: scan_votes_Cons [OF t c])
  moreover have "\<forall>c. c \<notin> (\<lambda>e. cid ! fst e) ` set (e # es) \<longrightarrow> h' ! c = h ! c"
    using same e by auto
  ultimately show ?case using len by blast
qed

lemma scan_max_Cons:
  "t < length cid \<Longrightarrow> cid ! t < length h \<Longrightarrow> cid ! t < length sizes \<Longrightarrow>
   scan_max coins ub sizes cid nw my ((t, w) # es) (h, mv, mb, r) =
     scan_max coins ub sizes cid nw my es
       (h[cid ! t := 0],
        if (mv < h ! (cid ! t) \<or> h ! (cid ! t) = mv \<and> coins r) \<and>
           (sizes ! (cid ! t) + nw \<le> ub \<or> cid ! t = my)
        then h ! (cid ! t) else mv,
        if (mv < h ! (cid ! t) \<or> h ! (cid ! t) = mv \<and> coins r) \<and>
           (sizes ! (cid ! t) + nw \<le> ub \<or> cid ! t = my)
        then cid ! t else mb,
        if h ! (cid ! t) = mv then Suc r else r)"
  by (simp add: vec_at_def nextBool_def)

lemma scan_max_ok:
  "\<forall>e \<in> set es. fst e < length cid \<Longrightarrow> \<forall>c \<in> set cid. c < length h \<Longrightarrow>
   length sizes = length h \<Longrightarrow>
   \<exists>h' mv' mb' r'.
     scan_max coins ub sizes cid nw my es (h, mv, mb, r) = Some (h', mv', mb', r') \<and>
     length h' = length h \<and>
     (\<forall>c < length h. h' ! c = (if c \<in> (\<lambda>e. cid ! fst e) ` set es then 0 else h ! c)) \<and>
     (mb' = mb \<or>
      mb' \<in> (\<lambda>e. cid ! fst e) ` set es \<and> (sizes ! mb' + nw \<le> ub \<or> mb' = my)) \<and>
     r \<le> r'"
proof (induction es arbitrary: h mv mb r)
  case Nil
  show ?case by simp
next
  case (Cons e es)
  obtain t w where e: "e = (t, w)" by (cases e)
  let ?cb = "cid ! t"
  from Cons.prems e have t: "t < length cid" by auto
  with Cons.prems have c: "?cb < length h" "?cb < length sizes" by auto
  let ?acc = "(mv < h ! ?cb \<or> h ! ?cb = mv \<and> coins r) \<and> (sizes ! ?cb + nw \<le> ub \<or> ?cb = my)"
  let ?h = "h[?cb := 0]"
  let ?mv = "if ?acc then h ! ?cb else mv"
  let ?mb = "if ?acc then ?cb else mb"
  let ?r = "if h ! ?cb = mv then Suc r else r"
  from Cons.prems have "\<forall>e \<in> set es. fst e < length cid" "\<forall>c \<in> set cid. c < length ?h"
    "length sizes = length ?h"
    by auto
  from Cons.IH [OF this, of ?mv ?mb ?r, unfolded length_list_update] obtain h' mv' mb' r' where
    run: "scan_max coins ub sizes cid nw my es (?h, ?mv, ?mb, ?r) = Some (h', mv', mb', r')"
    and len: "length h' = length h"
    and zero: "\<forall>c < length h. h' ! c = (if c \<in> (\<lambda>e. cid ! fst e) ` set es then 0 else ?h ! c)"
    and blk: "mb' = ?mb \<or>
      mb' \<in> (\<lambda>e. cid ! fst e) ` set es \<and> (sizes ! mb' + nw \<le> ub \<or> mb' = my)"
    and r: "?r \<le> r'"
    by blast
  have run': "scan_max coins ub sizes cid nw my (e # es) (h, mv, mb, r) = Some (h', mv', mb', r')"
    unfolding e using run by (simp only: scan_max_Cons [OF t c])
  have z: "\<forall>c < length h. h' ! c = (if c \<in> (\<lambda>e. cid ! fst e) ` set (e # es) then 0 else h ! c)"
    using zero e c by (auto simp: nth_list_update)
  have b: "mb' = mb \<or>
      mb' \<in> (\<lambda>e. cid ! fst e) ` set (e # es) \<and> (sizes ! mb' + nw \<le> ub \<or> mb' = my)"
    using blk e by (auto split: if_splits)
  have "r \<le> r'" using r by (auto split: if_splits)
  with run' len z b show ?case by blast
qed


lemma process_node_unfold:
  assumes G: "graph_ok G" and node: "node < number_of_nodes G"
    and len: "length (hash_map st) = number_of_nodes G"
      "length (cluster_sizes st) = number_of_nodes G"
      "length (cluster_id st) = number_of_nodes G"
    and ids: "\<forall>c \<in> set (cluster_id st). c < number_of_nodes G"
  shows "\<exists>h1 h2 mv mb r'.
     scan_votes (cluster_id st) (out_edges G ! node) (hash_map st) = Some h1 \<and>
     scan_max coins ub (cluster_sizes st) (cluster_id st) (node_weight G ! node)
       (cluster_id st ! node) (out_edges G ! node) (h1, 0, cluster_id st ! node, rnd st) =
       Some (h2, mv, mb, r') \<and>
     length h1 = number_of_nodes G \<and> mb < number_of_nodes G \<and>
     process_node coins G ub st node =
       Some (st\<lparr>hash_map := h2,
                cluster_sizes :=
                  ((cluster_sizes st)[cluster_id st ! node :=
                      cluster_sizes st ! (cluster_id st ! node) - node_weight G ! node])
                  [mb := ((cluster_sizes st)[cluster_id st ! node :=
                      cluster_sizes st ! (cluster_id st ! node) - node_weight G ! node]) ! mb
                    + node_weight G ! node],
                cluster_id := (cluster_id st)[node := mb],
                change_counter := change_counter st + (if cluster_id st ! node \<noteq> mb then 1 else 0),
                rnd := r'\<rparr>)"
proof -
  let ?N = "number_of_nodes G"
  let ?cid = "cluster_id st"
  let ?es = "out_edges G ! node"
  let ?my = "?cid ! node"
  let ?nw = "node_weight G ! node"
  from G node have es: "\<forall>e \<in> set ?es. fst e < length ?cid"
    using len by (auto simp: graph_ok_def)
  from ids len have idsh: "\<forall>c \<in> set ?cid. c < length (hash_map st)" by simp
  from scan_votes_ok [OF es idsh] obtain h1 where
    h1: "scan_votes ?cid ?es (hash_map st) = Some h1" and lh1: "length h1 = ?N"
    using len by auto
  from ids lh1 have ids1: "\<forall>c \<in> set ?cid. c < length h1" by simp
  from len lh1 have ls: "length (cluster_sizes st) = length h1" by simp
  from scan_max_ok [OF es ids1 ls, of coins ub ?nw ?my 0 ?my "rnd st"]
  obtain h2 mv mb r' where
    h2: "scan_max coins ub (cluster_sizes st) ?cid ?nw ?my ?es (h1, 0, ?my, rnd st) =
           Some (h2, mv, mb, r')"
    and blk: "mb = ?my \<or> mb \<in> (\<lambda>e. ?cid ! fst e) ` set ?es"
    by blast
  have my: "?my < ?N" using ids node len by simp
  have "mb < ?N" using blk my es ids len by auto
  moreover from this h1 h2 my node G len have "process_node coins G ub st node =
       Some (st\<lparr>hash_map := h2,
                cluster_sizes :=
                  ((cluster_sizes st)[?my := cluster_sizes st ! ?my - ?nw])
                  [mb := ((cluster_sizes st)[?my := cluster_sizes st ! ?my - ?nw]) ! mb + ?nw],
                cluster_id := ?cid[node := mb],
                change_counter := change_counter st + (if ?my \<noteq> mb then 1 else 0),
                rnd := r'\<rparr>)"
    by (simp add: process_node_def vec_at_def vec_set_def getNodeWeight_def graph_ok_def
        number_of_nodes_def)
  ultimately show ?thesis using h1 h2 lh1 by blast
qed


lemma cluster_weight_update:
  assumes "node < number_of_nodes G" "length cid = number_of_nodes G"
  shows "cluster_weight G (cid[node := mb]) c =
         cluster_weight G cid c - (if cid ! node = c then node_weight G ! node else 0)
           + (if mb = c then node_weight G ! node else 0)"
proof -
  let ?A = "{..<number_of_nodes G}"
  let ?f = "\<lambda>cid v. if cid ! v = c then node_weight G ! v else 0"
  have fin: "finite ?A" and mem: "node \<in> ?A" using assms by auto
  have rest: "sum (?f (cid[node := mb])) (?A - {node}) = sum (?f cid) (?A - {node})"
    by (rule sum.cong) auto
  have "sum (?f (cid[node := mb])) ?A =
        ?f (cid[node := mb]) node + sum (?f (cid[node := mb])) (?A - {node})"
    by (rule sum.remove [OF fin mem])
  moreover have "sum (?f cid) ?A = ?f cid node + sum (?f cid) (?A - {node})"
    by (rule sum.remove [OF fin mem])
  moreover have "?f (cid[node := mb]) node = (if mb = c then node_weight G ! node else 0)"
    using assms by simp
  ultimately show ?thesis unfolding cluster_weight_def using rest by simp
qed

lemma commit_sizes_nth:
  fixes sizes :: "'a::len word list"
  assumes "my < length sizes" "mb < length sizes" "c < length sizes"
  shows "((sizes[my := sizes ! my - w])[mb := (sizes[my := sizes ! my - w]) ! mb + w]) ! c =
         sizes ! c - (if my = c then w else 0) + (if mb = c then w else 0)"
  using assms by (simp add: nth_list_update)

lemma process_node_effect:
  assumes G: "graph_ok G" and inv: "lp_inv G st" and node: "node < number_of_nodes G"
  shows "\<exists>st' h1 mv mb r'.
     process_node coins G ub st node = Some st' \<and> lp_inv G st' \<and>
     scan_votes (cluster_id st) (out_edges G ! node) (hash_map st) = Some h1 \<and>
     scan_max coins ub (cluster_sizes st) (cluster_id st) (node_weight G ! node)
       (cluster_id st ! node) (out_edges G ! node) (h1, 0, cluster_id st ! node, rnd st) =
       Some (hash_map st', mv, mb, r') \<and>
     length h1 = number_of_nodes G \<and> mb < number_of_nodes G \<and>
     cluster_id st' = (cluster_id st)[node := mb] \<and>
     cluster_sizes st' =
       ((cluster_sizes st)[cluster_id st ! node :=
           cluster_sizes st ! (cluster_id st ! node) - node_weight G ! node])
       [mb := ((cluster_sizes st)[cluster_id st ! node :=
           cluster_sizes st ! (cluster_id st ! node) - node_weight G ! node]) ! mb
         + node_weight G ! node] \<and>
     rnd st' = r'"
proof -
  let ?N = "number_of_nodes G"
  let ?cid = "cluster_id st"
  let ?es = "out_edges G ! node"
  let ?my = "?cid ! node"
  let ?nw = "node_weight G ! node"
  let ?sz = "cluster_sizes st"
  from inv have hz: "hash_map st = replicate ?N 0"
    and len: "length (hash_map st) = ?N" "length ?sz = ?N" "length ?cid = ?N"
    and ids: "\<forall>c \<in> set ?cid. c < ?N"
    and cw: "\<forall>c < ?N. ?sz ! c = cluster_weight G ?cid c"
    by (auto simp: lp_inv_def)
  from process_node_unfold [OF G node len ids, of coins ub]
  obtain h1 h2 mv mb r' where
    h1: "scan_votes ?cid ?es (hash_map st) = Some h1"
    and h2: "scan_max coins ub ?sz ?cid ?nw ?my ?es (h1, 0, ?my, rnd st) = Some (h2, mv, mb, r')"
    and lh1: "length h1 = ?N" and mb: "mb < ?N"
    and run: "process_node coins G ub st node =
       Some (st\<lparr>hash_map := h2,
                cluster_sizes := (?sz[?my := ?sz ! ?my - ?nw])
                  [mb := (?sz[?my := ?sz ! ?my - ?nw]) ! mb + ?nw],
                cluster_id := ?cid[node := mb],
                change_counter := change_counter st + (if ?my \<noteq> mb then 1 else 0),
                rnd := r'\<rparr>)" (is "_ = Some ?st'")
    by blast
  from G node have es: "\<forall>e \<in> set ?es. fst e < length ?cid"
    using len by (auto simp: graph_ok_def)
  have my: "?my < ?N" using ids node len by simp
  have "h2 = replicate ?N 0"
  proof -
    from ids len have "\<forall>c \<in> set ?cid. c < length (hash_map st)" by simp
    from scan_votes_ok [OF es this] h1
    have same: "\<forall>c. c \<notin> (\<lambda>e. ?cid ! fst e) ` set ?es \<longrightarrow> h1 ! c = hash_map st ! c"
      by auto
    from ids lh1 have "\<forall>c \<in> set ?cid. c < length h1" by simp
    moreover from len lh1 have "length ?sz = length h1" by simp
    ultimately have "length h2 = length h1 \<and>
      (\<forall>c < length h1. h2 ! c = (if c \<in> (\<lambda>e. ?cid ! fst e) ` set ?es then 0 else h1 ! c))"
      using scan_max_ok [OF es, of h1 ?sz coins ub ?nw ?my 0 ?my "rnd st"] h2 by auto
    then have "length h2 = ?N" "\<forall>c < ?N. h2 ! c = 0"
      using same lh1 hz by auto
    then show ?thesis by (simp add: list_eq_iff_nth_eq)
  qed
  moreover have "\<forall>c \<in> set (?cid[node := mb]). c < ?N"
    using ids mb set_update_subset_insert [of ?cid node mb] by auto
  moreover have "\<forall>c < ?N. (?sz[?my := ?sz ! ?my - ?nw])
                  [mb := (?sz[?my := ?sz ! ?my - ?nw]) ! mb + ?nw] ! c =
                cluster_weight G (?cid[node := mb]) c"
    using cw my mb len by (simp add: commit_sizes_nth cluster_weight_update [OF node])
  ultimately have "lp_inv G ?st'" using len by (simp add: lp_inv_def)
  moreover have "hash_map ?st' = h2" "cluster_id ?st' = ?cid[node := mb]" "rnd ?st' = r'"
    "cluster_sizes ?st' = (?sz[?my := ?sz ! ?my - ?nw])
                  [mb := (?sz[?my := ?sz ! ?my - ?nw]) ! mb + ?nw]"
    by simp_all
  ultimately show ?thesis using run h1 h2 lh1 mb
    by (intro exI [of _ ?st'] exI [of _ h1] exI [of _ mv] exI [of _ mb] exI [of _ r'])
       (simp only: simp_thms)
qed

lemma lp_nodes_append:
  "lp_nodes coins G ub perm (xs @ ys) st =
     (case lp_nodes coins G ub perm xs st of
        None \<Rightarrow> None | Some st' \<Rightarrow> lp_nodes coins G ub perm ys st')"
  by (induction xs arbitrary: st) (auto split: Option.bind_splits)

lemma lp_passes_Suc_end:
  "lp_passes coins G ub perm (Suc n) st =
     Option.bind (lp_passes coins G ub perm n st)
       (\<lambda>st'. lp_nodes coins G ub perm [0..<number_of_nodes G] (st'\<lparr>change_counter := 0\<rparr>))"
proof (induction n arbitrary: st)
  case 0
  show ?case by (auto split: Option.bind_splits)
next
  case (Suc n)
  let ?pass = "\<lambda>st'. lp_nodes coins G ub perm [0..<number_of_nodes G] (st'\<lparr>change_counter := 0\<rparr>)"
  have step: "lp_passes coins G ub perm (Suc m) s =
              Option.bind (?pass s) (lp_passes coins G ub perm m)" for m s
    by (subst lp_passes.simps(2)) (rule refl)
  have ih: "lp_passes coins G ub perm (Suc n) =
            (\<lambda>s. Option.bind (lp_passes coins G ub perm n s) ?pass)"
    by (rule ext) (rule Suc.IH)
  have "lp_passes coins G ub perm (Suc (Suc n)) st =
        Option.bind (?pass st) (lp_passes coins G ub perm (Suc n))"
    by (rule step)
  also have "\<dots> = Option.bind (?pass st) (\<lambda>s. Option.bind (lp_passes coins G ub perm n s) ?pass)"
    by (simp only: ih)
  also have "\<dots> = Option.bind (Option.bind (?pass st) (lp_passes coins G ub perm n)) ?pass"
    by (simp only: Option.bind_assoc)
  also have "\<dots> = Option.bind (lp_passes coins G ub perm (Suc n) st) ?pass"
    by (simp only: step [of n st])
  finally show ?case .
qed

lemma lp_at_Suc:
  assumes "i < number_of_nodes G" "lp_at coins r G ub perm j i = Some st"
  shows "lp_at coins r G ub perm j (Suc i) =
           (case vec_at perm i of None \<Rightarrow> None | Some node \<Rightarrow> process_node coins G ub st node)"
  using assms
  by (auto simp: lp_at_def lp_nodes_append split: Option.bind_splits option.splits)

lemma lp_at_next_pass:
  assumes "lp_at coins r G ub perm j (number_of_nodes G) = Some st"
  shows "lp_at coins r G ub perm (Suc j) 0 = Some (st\<lparr>change_counter := 0\<rparr>)"
  using assms
  by (auto simp: lp_at_def lp_passes_Suc_end simp del: lp_passes.simps
      split: Option.bind_splits)

text \<open>The state after \<open>j + 1\<close> passes is the state at the end of pass \<open>j\<close>: the points that
  \<open>lp_at\<close> names are the states the loops of \<open>label_propagation\<close> go through.\<close>

lemma lp_passes_eq_lp_at:
  "lp_passes coins G ub perm (Suc j) (lp_init G r) =
     lp_at coins r G ub perm j (number_of_nodes G)"
  unfolding lp_at_def by (rule lp_passes_Suc_end)

lemma lp_inv_init: "lp_inv G (lp_init G r)"
proof -
  have "cluster_weight G [0..<number_of_nodes G] c = node_weight G ! c"
    if "c < number_of_nodes G" for c
  proof -
    have "cluster_weight G [0..<number_of_nodes G] c =
          (\<Sum>v<number_of_nodes G. if v = c then node_weight G ! v else 0)"
      unfolding cluster_weight_def by (rule sum.cong) auto
    also have "\<dots> = node_weight G ! c" using that by simp
    finally show ?thesis .
  qed
  then show ?thesis
    by (simp add: lp_inv_def lp_init_def number_of_nodes_def map_nth)
qed

lemma lp_at_invariant:
  assumes step: "\<And>st node. Q st \<Longrightarrow> node < number_of_nodes G \<Longrightarrow>
                   \<exists>st'. process_node coins G ub st node = Some st' \<and> Q st'"
    and reset: "\<And>st. Q st \<Longrightarrow> Q (st\<lparr>change_counter := 0\<rparr>)"
    and init: "Q (lp_init G r)"
    and perm: "permutation_ok G perm"
    and i: "i \<le> number_of_nodes G"
  shows "\<exists>st. lp_at coins r G ub perm j i = Some st \<and> Q st"
proof -
  have inner: "\<exists>st. lp_at coins r G ub perm j i = Some st \<and> Q st"
    if "i \<le> number_of_nodes G"
      and base: "\<exists>st. lp_at coins r G ub perm j 0 = Some st \<and> Q st" for i j
    using that(1)
  proof (induction i)
    case 0
    show ?case by (rule base)
  next
    case (Suc i)
    then obtain st where st: "lp_at coins r G ub perm j i = Some st" "Q st" by auto
    from Suc.prems perm have "vec_at perm i = Some (perm ! i)" "perm ! i < number_of_nodes G"
      by (auto simp: permutation_ok_def vec_at_def)
    moreover from step [OF st(2) this(2)] obtain st' where
      "process_node coins G ub st (perm ! i) = Some st'" "Q st'" by blast
    ultimately show ?case using lp_at_Suc [of i G coins r ub perm j st] st Suc.prems by simp
  qed
  have "\<exists>st. lp_at coins r G ub perm j 0 = Some st \<and> Q st"
  proof (induction j)
    case 0
    show ?case using init reset by (simp add: lp_at_def)
  next
    case (Suc j)
    from inner [OF order_refl Suc] obtain st where
      "lp_at coins r G ub perm j (number_of_nodes G) = Some st" "Q st" by blast
    then show ?case using lp_at_next_pass [of coins r G ub perm j st] reset by simp
  qed
  from inner [OF i this] show ?thesis .
qed

lemma lp_inv_reset: "lp_inv G st \<Longrightarrow> lp_inv G (st\<lparr>change_counter := 0\<rparr>)"
  by (simp add: lp_inv_def)

lemma lp_at_inv:
  assumes "graph_ok G" "permutation_ok G perm" "i \<le> number_of_nodes G"
  shows "\<exists>st. lp_at coins r G ub perm j i = Some st \<and> lp_inv G st"
proof (rule lp_at_invariant [where Q = "lp_inv G"])
  fix st node assume "lp_inv G st" "node < number_of_nodes G"
  from process_node_effect [OF assms(1) this]
  show "\<exists>st'. process_node coins G ub st node = Some st' \<and> lp_inv G st'" by blast
qed (use assms in \<open>simp_all add: lp_inv_reset lp_inv_init\<close>)

lemma sum_by_cluster:
  fixes f :: "nat \<Rightarrow> 'b::comm_monoid_add"
  assumes "\<forall>v<n. cid ! v < n"
  shows "(\<Sum>c<n. \<Sum>v<n. if cid ! v = c then f v else 0) = (\<Sum>v<n. f v)"
proof -
  have "(\<Sum>c<n. \<Sum>v<n. if cid ! v = c then f v else 0) =
        (\<Sum>v<n. \<Sum>c<n. if cid ! v = c then f v else 0)"
    by (rule sum.swap)
  also have "\<dots> = (\<Sum>v<n. f v)"
  proof (rule sum.cong [OF refl])
    fix v assume "v \<in> {..<n}"
    with assms have "cid ! v \<in> {..<n}" by simp
    then show "(\<Sum>c<n. if cid ! v = c then f v else 0) = f v" by simp
  qed
  finally show ?thesis .
qed

lemma sum_list_nth_lessThan:
  fixes xs :: "'b::comm_monoid_add list"
  shows "sum_list xs = (\<Sum>i<length xs. xs ! i)"
  by (simp add: sum_list_sum_nth atLeast0LessThan)

lemma unat_sum_no_overflow:
  fixes f :: "'i \<Rightarrow> 'a::len word"
  assumes "finite A" "(\<Sum>v\<in>A. unat (f v)) < 2 ^ LENGTH('a)"
  shows "unat (\<Sum>v\<in>A. f v) = (\<Sum>v\<in>A. unat (f v))"
  using assms
proof (induction A rule: finite_induct)
  case empty
  show ?case by simp
next
  case (insert x F)
  from insert.prems insert.hyps have
    bound: "unat (f x) + (\<Sum>v\<in>F. unat (f v)) < 2 ^ LENGTH('a)" by simp
  then have "(\<Sum>v\<in>F. unat (f v)) < 2 ^ LENGTH('a)" by simp
  with insert.IH have ih: "unat (\<Sum>v\<in>F. f v) = (\<Sum>v\<in>F. unat (f v))" by simp
  with bound have "unat (f x + (\<Sum>v\<in>F. f v)) = unat (f x) + unat (\<Sum>v\<in>F. f v)"
    by (simp add: unat_add_lem [THEN iffD1])
  with ih insert.hyps show ?case by simp
qed

lemma lp_inv_sum_word:
  assumes "lp_inv G st"
  shows "sum_list (cluster_sizes st) = sum_list (node_weight G)"
proof -
  let ?N = "number_of_nodes G"
  from assms have len: "length (cluster_sizes st) = ?N" "length (cluster_id st) = ?N"
    and ids: "\<forall>v<?N. cluster_id st ! v < ?N"
    and cw: "\<forall>c < ?N. cluster_sizes st ! c = cluster_weight G (cluster_id st) c"
    by (auto simp: lp_inv_def)
  have "sum_list (cluster_sizes st) = (\<Sum>c<?N. cluster_sizes st ! c)"
    using len by (simp add: sum_list_nth_lessThan)
  also have "\<dots> = (\<Sum>c<?N. \<Sum>v<?N. if cluster_id st ! v = c then node_weight G ! v else 0)"
    using cw by (simp add: cluster_weight_def)
  also have "\<dots> = (\<Sum>v<?N. node_weight G ! v)"
    by (rule sum_by_cluster [OF ids])
  also have "\<dots> = sum_list (node_weight G)"
    by (simp add: sum_list_nth_lessThan number_of_nodes_def)
  finally show ?thesis .
qed

lemma lp_inv_sum_nat:
  fixes G :: "'a::len graph_access"
  assumes "lp_inv G st" and total: "sum_list (map unat (node_weight G)) < 2 ^ LENGTH('a)"
  shows "sum_list (map unat (cluster_sizes st)) = sum_list (map unat (node_weight G))"
proof -
  let ?N = "number_of_nodes G"
  let ?w = "\<lambda>v. node_weight G ! v"
  from assms have len: "length (cluster_sizes st) = ?N" "length (cluster_id st) = ?N"
    and ids: "\<forall>v<?N. cluster_id st ! v < ?N"
    and cw: "\<forall>c < ?N. cluster_sizes st ! c = cluster_weight G (cluster_id st) c"
    by (auto simp: lp_inv_def)
  have tot: "sum_list (map unat (node_weight G)) = (\<Sum>v<?N. unat (?w v))"
    by (simp add: sum_list_nth_lessThan number_of_nodes_def)
  have one: "unat (cluster_sizes st ! c) = (\<Sum>v<?N. if cluster_id st ! v = c then unat (?w v) else 0)"
    if "c < ?N" for c
  proof -
    let ?f = "\<lambda>v. if cluster_id st ! v = c then ?w v else 0"
    have eq: "(\<Sum>v<?N. unat (?f v)) = (\<Sum>v<?N. if cluster_id st ! v = c then unat (?w v) else 0)"
      by (rule sum.cong) auto
    have "(\<Sum>v<?N. if cluster_id st ! v = c then unat (?w v) else 0) \<le> (\<Sum>v<?N. unat (?w v))"
      by (rule sum_mono) simp
    with eq tot total have "(\<Sum>v<?N. unat (?f v)) < 2 ^ LENGTH('a)" by simp
    then have "unat (\<Sum>v<?N. ?f v) = (\<Sum>v<?N. unat (?f v))"
      by (intro unat_sum_no_overflow) simp_all
    with eq cw that show ?thesis by (simp add: cluster_weight_def)
  qed
  have "sum_list (map unat (cluster_sizes st)) = (\<Sum>c<?N. unat (cluster_sizes st ! c))"
    using len by (simp add: sum_list_nth_lessThan)
  also have "\<dots> = (\<Sum>c<?N. \<Sum>v<?N. if cluster_id st ! v = c then unat (?w v) else 0)"
    using one by simp
  also have "\<dots> = (\<Sum>v<?N. unat (?w v))"
    by (rule sum_by_cluster [OF ids])
  finally show ?thesis using tot by simp
qed

lemma graph_ok_example: "graph_ok example_graph"
  by (simp add: graph_ok_def example_graph_def number_of_nodes_def)

lemma permutation_ok_example: "permutation_ok example_graph [2, 0, 4, 1, 3]"
  by (simp add: permutation_ok_def example_graph_def number_of_nodes_def)

lemma lp_at_0_passes:
  "lp_at coins r G ub perm j 0 = Some st0 \<Longrightarrow>
   \<exists>st. lp_passes coins G ub perm j (lp_init G r) = Some st \<and> st0 = st\<lparr>change_counter := 0\<rparr>"
  by (auto simp: lp_at_def split: Option.bind_splits)

lemma remap_inv_identity:
  assumes "remap_inv [0..<n] n (m, k, cid')"
  shows "cid' = [0..<n] \<and> k = n"
proof -
  from assms have len: "length cid' = n"
    and img: "\<And>j. j < n \<Longrightarrow> m j = Some (cid' ! j)"
    and inj: "\<And>a b d. m a = Some d \<Longrightarrow> m b = Some d \<Longrightarrow> a = b"
    and le: "\<And>j. j < n \<Longrightarrow> cid' ! j \<le> j"
    and k: "k = n"
    by (auto simp: remap_inv_def)
  have "cid' ! j = j" if "j < n" for j
    using that
  proof (induction j rule: less_induct)
    case (less j)
    show ?case
    proof (rule ccontr)
      assume "cid' ! j \<noteq> j"
      with le [OF less.prems] have l: "cid' ! j < j" by simp
      with less have "cid' ! (cid' ! j) = cid' ! j" by simp
      with img [of "cid' ! j"] img [OF less.prems] l less.prems
      have "m (cid' ! j) = Some (cid' ! j)" "m j = Some (cid' ! j)" by simp_all
      then have "cid' ! j = j" by (rule inj)
      with l show False by simp
    qed
  qed
  with len have "cid' = [0..<n]" by (simp add: list_eq_iff_nth_eq)
  with k show ?thesis by simp
qed

lemma scan_max_own_leads:
  fixes h :: "'a::len word list"
  assumes "\<forall>e \<in> set es. fst e < length cid" "\<forall>c \<in> set cid. c < length h"
    "length sizes = length h"
    and "scan_max coins ub sizes cid nw my es (h, mv, mb, r) = Some (h', mv', mb', r')"
    and "\<forall>e \<in> set es. cid ! fst e \<noteq> my \<longrightarrow> h ! (cid ! fst e) < V"
    and "h ! my = V \<and> mv \<le> V \<and> (mb = my \<or> mv < V) \<and> (\<exists>e \<in> set es. cid ! fst e = my) \<or>
         mb = my \<and> mv = V \<and> h ! my = 0"
  shows "mb' = my"
  using assms
proof (induction es arbitrary: h mv mb r)
  case Nil
  then show ?case by auto
next
  case (Cons e es)
  obtain t w where e: "e = (t, w)" by (cases e)
  let ?cb = "cid ! t"
  let ?cv = "h ! ?cb"
  from Cons.prems(1) e have t: "t < length cid" by auto
  with Cons.prems(2,3) have c: "?cb < length h" "?cb < length sizes" by auto
  let ?acc = "(mv < ?cv \<or> ?cv = mv \<and> coins r) \<and> (sizes ! ?cb + nw \<le> ub \<or> ?cb = my)"
  let ?h = "h[?cb := 0]"
  let ?mv = "if ?acc then ?cv else mv"
  let ?mb = "if ?acc then ?cb else mb"
  let ?r = "if ?cv = mv then Suc r else r"
  from Cons.prems(4) have run:
    "scan_max coins ub sizes cid nw my es (?h, ?mv, ?mb, ?r) = Some (h', mv', mb', r')"
    unfolding e by (simp only: scan_max_Cons [OF t c])
  have b1: "\<forall>e \<in> set es. fst e < length cid" using Cons.prems(1) by simp
  have b2: "\<forall>c \<in> set cid. c < length ?h" using Cons.prems(2) by simp
  have b3: "length sizes = length ?h" using Cons.prems(3) by simp
  have others: "\<forall>e \<in> set es. cid ! fst e \<noteq> my \<longrightarrow> ?h ! (cid ! fst e) < V"
  proof (intro ballI impI)
    fix e' assume e': "e' \<in> set es" "cid ! fst e' \<noteq> my"
    with Cons.prems(5) have lt: "h ! (cid ! fst e') < V" by simp
    then have "0 < V" by (metis word_neq_0_conv word_zero_le leD)
    with lt show "?h ! (cid ! fst e') < V" using c by (simp add: nth_list_update)
  qed
  have state: "?h ! my = V \<and> ?mv \<le> V \<and> (?mb = my \<or> ?mv < V) \<and> (\<exists>e \<in> set es. cid ! fst e = my) \<or>
         ?mb = my \<and> ?mv = V \<and> ?h ! my = 0"
  proof (cases "?cb = my")
    case False
    with Cons.prems(5) e have lt: "?cv < V" by simp
    from Cons.prems(6) show ?thesis
    proof
      assume A: "h ! my = V \<and> mv \<le> V \<and> (mb = my \<or> mv < V) \<and> (\<exists>e \<in> set (e # es). cid ! fst e = my)"
      with False e have "\<exists>e \<in> set es. cid ! fst e = my" by auto
      with A False lt show ?thesis by auto
    next
      assume B: "mb = my \<and> mv = V \<and> h ! my = 0"
      with lt have "\<not> ?acc" by auto
      then have "?mb = mb" "?mv = mv" by (simp_all only: if_False)
      moreover have "?h ! my = h ! my" using False by simp
      ultimately have "?mb = my \<and> ?mv = V \<and> ?h ! my = 0" using B by (simp only:)
      then show ?thesis by (rule disjI2)
    qed
  next
    case True
    from Cons.prems(6) show ?thesis
    proof
      assume A: "h ! my = V \<and> mv \<le> V \<and> (mb = my \<or> mv < V) \<and> (\<exists>e \<in> set (e # es). cid ! fst e = my)"
      with True have cv: "?cv = V" by simp
      have "?mb = my \<and> ?mv = V" using A True cv by auto
      moreover have "?h ! my = 0" using True c by simp
      ultimately show ?thesis by blast
    next
      assume B: "mb = my \<and> mv = V \<and> h ! my = 0"
      with True have cv: "?cv = 0" by simp
      have "?mb = my \<and> ?mv = V" using B True cv by auto
      moreover have "?h ! my = 0" using True c by simp
      ultimately show ?thesis by blast
    qed
  qed
  from Cons.IH [OF b1 b2 b3 run others state] show ?case .
qed

lemma scan_max_no_positive:
  fixes h :: "'a::len word list"
  assumes "\<forall>e \<in> set es. fst e < length cid" "\<forall>c \<in> set cid. c < length h"
    "length sizes = length h"
    and "scan_max coins ub sizes cid nw my es (h, 0, mb, r) = Some (h', mv', mb', r')"
    and "\<forall>e \<in> set es. \<not> (0 < h ! (cid ! fst e) \<and>
           (sizes ! (cid ! fst e) + nw \<le> ub \<or> cid ! fst e = my))"
  shows "mb' = mb \<or>
         h ! mb' = 0 \<and> (sizes ! mb' + nw \<le> ub \<or> mb' = my) \<and>
         (\<exists>e \<in> set es. cid ! fst e = mb') \<and> (\<exists>k \<in> {r..<r'}. coins k)"
  using assms
proof (induction es arbitrary: h mb r)
  case Nil
  then show ?case by auto
next
  case (Cons e es)
  obtain t w where e: "e = (t, w)" by (cases e)
  let ?cb = "cid ! t"
  let ?cv = "h ! ?cb"
  let ?el = "\<lambda>c. sizes ! c + nw \<le> ub \<or> c = my"
  from Cons.prems(1) e have t: "t < length cid" by auto
  with Cons.prems(2,3) have c: "?cb < length h" "?cb < length sizes" by auto
  let ?acc = "(0 < ?cv \<or> ?cv = 0 \<and> coins r) \<and> ?el ?cb"
  let ?h = "h[?cb := 0]"
  let ?mb = "if ?acc then ?cb else mb"
  let ?r = "if ?cv = 0 then Suc r else r"
  from Cons.prems(5) e have head: "\<not> (0 < ?cv \<and> ?el ?cb)" by simp
  then have acc: "?acc \<longleftrightarrow> ?cv = 0 \<and> coins r \<and> ?el ?cb" by auto
  then have mv: "(if ?acc then ?cv else 0) = 0" by auto
  from Cons.prems(4) have run:
    "scan_max coins ub sizes cid nw my es (?h, 0, ?mb, ?r) = Some (h', mv', mb', r')"
    unfolding e by (simp only: scan_max_Cons [OF t c] mv)
  have b1: "\<forall>e \<in> set es. fst e < length cid" using Cons.prems(1) by simp
  have b2: "\<forall>c \<in> set cid. c < length ?h" using Cons.prems(2) by simp
  have b3: "length sizes = length ?h" using Cons.prems(3) by simp
  have prem: "\<forall>e \<in> set es. \<not> (0 < ?h ! (cid ! fst e) \<and> ?el (cid ! fst e))"
    using Cons.prems(5) c by (auto simp: nth_list_update)
  from scan_max_ok [OF b1 b2 b3, of coins ub nw my 0 ?mb ?r] run have rr: "?r \<le> r'" by auto
  from Cons.IH [OF b1 b2 b3 run prem]
  have ih: "mb' = ?mb \<or>
         ?h ! mb' = 0 \<and> ?el mb' \<and> (\<exists>e \<in> set es. cid ! fst e = mb') \<and> (\<exists>k \<in> {?r..<r'}. coins k)" .
  then show ?case
  proof
    assume eq: "mb' = ?mb"
    show ?thesis
    proof (cases ?acc)
      case True
      with acc have "?cv = 0" "coins r" "?el ?cb" by auto
      moreover from this rr have "r \<in> {r..<r'}" by simp
      ultimately show ?thesis using eq True e by auto
    next
      case False
      with eq show ?thesis by simp
    qed
  next
    assume far: "?h ! mb' = 0 \<and> ?el mb' \<and> (\<exists>e \<in> set es. cid ! fst e = mb') \<and> (\<exists>k \<in> {?r..<r'}. coins k)"
    have "h ! mb' = 0"
    proof (cases "mb' = ?cb")
      case True
      with far head have "\<not> 0 < ?cv" by auto
      with True show ?thesis using word_neq_0_conv [of ?cv] by blast
    next
      case False
      with far show ?thesis by simp
    qed
    moreover from far obtain k where "k \<in> {?r..<r'}" "coins k" by blast
    then have "\<exists>k \<in> {r..<r'}. coins k" by (auto split: if_splits intro: bexI [of _ k])
    ultimately show ?thesis using far by auto
  qed
qed


lemma lp_at_visit:
  assumes G: "graph_ok G" and perm: "permutation_ok G perm" and i: "i < number_of_nodes G"
  shows "\<exists>st st' h1 mv.
     lp_at coins r G ub perm j i = Some st \<and> lp_inv G st \<and>
     lp_at coins r G ub perm j (Suc i) = Some st' \<and>
     process_node coins G ub st (perm ! i) = Some st' \<and>
     perm ! i < number_of_nodes G \<and>
     votes G st (perm ! i) = Some h1 \<and> length h1 = number_of_nodes G \<and>
     scan_max coins ub (cluster_sizes st) (cluster_id st) (node_weight G ! (perm ! i))
       (cluster_id st ! (perm ! i)) (out_edges G ! (perm ! i))
       (h1, 0, cluster_id st ! (perm ! i), rnd st) =
       Some (hash_map st', mv, cluster_id st' ! (perm ! i), rnd st') \<and>
     cluster_id st' ! (perm ! i) < number_of_nodes G \<and>
     cluster_sizes st' =
       ((cluster_sizes st)[cluster_id st ! (perm ! i) :=
           cluster_sizes st ! (cluster_id st ! (perm ! i)) - node_weight G ! (perm ! i)])
       [cluster_id st' ! (perm ! i) :=
          ((cluster_sizes st)[cluster_id st ! (perm ! i) :=
             cluster_sizes st ! (cluster_id st ! (perm ! i)) - node_weight G ! (perm ! i)])
          ! (cluster_id st' ! (perm ! i))
          + node_weight G ! (perm ! i)]"
proof -
  let ?u = "perm ! i"
  from i have "i \<le> number_of_nodes G" by simp
  from lp_at_inv [OF G perm this, of coins r ub j] obtain st where
    st: "lp_at coins r G ub perm j i = Some st" and inv: "lp_inv G st" by blast
  from perm i have u: "?u < number_of_nodes G" and at: "vec_at perm i = Some ?u"
    by (auto simp: permutation_ok_def vec_at_def)
  from inv u have len: "?u < length (cluster_id st)" by (simp add: lp_inv_def)
  from process_node_effect [OF G inv u, of coins ub] obtain st' h1 mv mb r' where
    run: "process_node coins G ub st ?u = Some st'"
    and h1: "scan_votes (cluster_id st) (out_edges G ! ?u) (hash_map st) = Some h1"
    and sm: "scan_max coins ub (cluster_sizes st) (cluster_id st) (node_weight G ! ?u)
       (cluster_id st ! ?u) (out_edges G ! ?u) (h1, 0, cluster_id st ! ?u, rnd st) =
       Some (hash_map st', mv, mb, r')"
    and lh1: "length h1 = number_of_nodes G" and mb: "mb < number_of_nodes G"
    and cid': "cluster_id st' = (cluster_id st)[?u := mb]"
    and sz': "cluster_sizes st' =
       ((cluster_sizes st)[cluster_id st ! ?u :=
           cluster_sizes st ! (cluster_id st ! ?u) - node_weight G ! ?u])
       [mb := ((cluster_sizes st)[cluster_id st ! ?u :=
           cluster_sizes st ! (cluster_id st ! ?u) - node_weight G ! ?u]) ! mb
         + node_weight G ! ?u]"
    and r': "rnd st' = r'"
    by blast
  from cid' len have mb_eq: "cluster_id st' ! ?u = mb" by simp
  from lp_at_Suc [OF i st] at run have nxt: "lp_at coins r G ub perm j (Suc i) = Some st'"
    by simp
  from st inv nxt run u h1 lh1 sm mb sz' show ?thesis
    unfolding mb_eq [symmetric] r' [symmetric] votes_def by blast
qed

lemma graph_ok_zero_edge: "graph_ok zero_edge_graph"
  by (simp add: graph_ok_def zero_edge_graph_def number_of_nodes_def)

lemma permutation_ok_zero_edge: "permutation_ok zero_edge_graph [0, 1]"
  by (simp add: permutation_ok_def zero_edge_graph_def number_of_nodes_def)

lemma permutation_ok_example_id: "permutation_ok example_graph [0, 1, 2, 3, 4]"
  by (simp add: permutation_ok_def example_graph_def number_of_nodes_def)

lemma scan_max_append:
  "scan_max coins ub sizes cid nw my (xs @ ys) s =
     Option.bind (scan_max coins ub sizes cid nw my xs s) (scan_max coins ub sizes cid nw my ys)"
proof (induction xs arbitrary: s)
  case Nil
  show ?case by simp
next
  case (Cons e xs)
  obtain t w where e: "e = (t, w)" by (cases e)
  obtain h mv mb r where s: "s = (h, mv, mb, r)" by (cases s)
  show ?case unfolding e s
    by (cases "vec_at cid t"; cases "vec_at h (cid ! t)"; cases "vec_at sizes (cid ! t)")
       (auto simp: Cons.IH nextBool_def vec_at_def split: if_splits)
qed

lemma scan_max_sizes_irrelevant:
  "scan_max coins ub (sizes[my := x]) cid nw my es s = scan_max coins ub sizes cid nw my es s"
proof (induction es arbitrary: s)
  case Nil
  show ?case by simp
next
  case (Cons e es)
  obtain t w where e: "e = (t, w)" by (cases e)
  obtain h mv mb r where s: "s = (h, mv, mb, r)" by (cases s)
  show ?case unfolding e s
    by (cases "vec_at cid t"; cases "vec_at h (cid ! t)"; cases "vec_at sizes (cid ! t)";
        cases "cid ! t = my")
       (auto simp: Cons.IH nextBool_def vec_at_def split: if_splits)
qed

lemma scan_votes_sum:
  fixes h :: "'a::len word list"
  assumes "\<forall>e \<in> set es. fst e < length cid" "\<forall>c \<in> set cid. c < length h"
  shows "\<exists>h'. scan_votes cid es h = Some h' \<and> length h' = length h \<and>
           (\<forall>c < length h.
              h' ! c = h ! c + sum_list (map snd (filter (\<lambda>e. cid ! fst e = c) es)))"
  using assms
proof (induction es arbitrary: h)
  case Nil
  show ?case by simp
next
  case (Cons e es)
  obtain t w where e: "e = (t, w)" by (cases e)
  from Cons.prems e have t: "t < length cid" and c: "cid ! t < length h" by auto
  let ?h = "h[cid ! t := h ! (cid ! t) + w]"
  from Cons.prems have "\<forall>e \<in> set es. fst e < length cid" "\<forall>c \<in> set cid. c < length ?h"
    by auto
  from Cons.IH [OF this, unfolded length_list_update] obtain h' where
    run: "scan_votes cid es ?h = Some h'" and len: "length h' = length h"
    and sum: "\<forall>c < length h.
       h' ! c = ?h ! c + sum_list (map snd (filter (\<lambda>e. cid ! fst e = c) es))"
    by blast
  have "scan_votes cid (e # es) h = Some h'"
    unfolding e using run by (simp only: scan_votes_Cons [OF t c])
  moreover have "\<forall>c < length h.
       h' ! c = h ! c + sum_list (map snd (filter (\<lambda>e. cid ! fst e = c) (e # es)))"
    using sum e c by (auto simp: nth_list_update add.assoc)
  ultimately show ?case using len by blast
qed

lemma scan_max_own_edge:
  assumes "t < length cid" "cid ! t = my" "my < length h" "my < length sizes"
  shows "scan_max coins ub sizes cid nw my [(t, w)] (h, mv, mb, r) =
           Some (h[my := 0],
                 if mv < h ! my \<or> h ! my = mv \<and> coins r then h ! my else mv,
                 if mv < h ! my \<or> h ! my = mv \<and> coins r then my else mb,
                 if h ! my = mv then Suc r else r)"
proof -
  from assms have c: "cid ! t < length h" "cid ! t < length sizes" by simp_all
  show ?thesis
    by (simp only: scan_max_Cons [OF assms(1) c] assms(2) scan_max.simps(1) simp_thms)
qed

lemma graph_ok_tie: "graph_ok tie_graph"
  by (simp add: graph_ok_def tie_graph_def number_of_nodes_def)

lemma permutation_ok_tie: "permutation_ok tie_graph [0, 1, 2]"
  by (simp add: permutation_ok_def tie_graph_def number_of_nodes_def)

lemmas eval_simps =
  lp_at_def lp_init_def process_node_def vec_at_def vec_set_def getNodeWeight_def
  nextBool_def number_of_nodes_def votes_def eligible_def own_cluster_leads_def
  no_eligible_vote_above_zero_def won_tie_at_zero_def coins_true_def coins_false_def

subsection \<open>The claims about the propagation\<close>

text \<open>
  Claim C2. At every point of the propagation, after the initialisation and after every
  commit of a node, the tracked cluster sizes add up to the node weights of the graph. The
  sums agree in the machine arithmetic of the code whatever the weights are, and as numbers
  as soon as the node weights add up without overflow.
\<close>

theorem weight_conservation:
  fixes G :: "'a::len graph_access"
  assumes "graph_ok G" "permutation_ok G perm" "i \<le> number_of_nodes G"
  shows "\<exists>st. lp_at coins r G ub perm j i = Some st \<and>
           sum_list (cluster_sizes st) = sum_list (node_weight G) \<and>
           (sum_list (map unat (node_weight G)) < 2 ^ LENGTH('a) \<longrightarrow>
            sum_list (map unat (cluster_sizes st)) = sum_list (map unat (node_weight G)))"
proof -
  from lp_at_inv [OF assms] obtain st where
    "lp_at coins r G ub perm j i = Some st" "lp_inv G st" by blast
  then show ?thesis using lp_inv_sum_word lp_inv_sum_nat by blast
qed

theorem weight_conservation_witness:
  "\<exists>st. lp_at coins_true 0 example_graph 2 [2, 0, 4, 1, 3] 1 3 = Some st \<and>
     sum_list (cluster_sizes st) = sum_list (node_weight example_graph) \<and>
     sum_list (map unat (cluster_sizes st)) = sum_list (map unat (node_weight example_graph))"
  using weight_conservation [OF graph_ok_example permutation_ok_example,
      of 3 coins_true 0 2 1]
  by (simp add: example_graph_def number_of_nodes_def)

text \<open>
  Claim C7. The vote accumulator is all zero at the start of the processing of every node,
  and the two sweeps of a visit keep it so:
  \<^item> the first sweep adds the weight of every edge of the node, once, to the entry of the
    cluster of its target: from the zero accumulator the entry of a cluster is the sum of
    the weights of the edges into it, and from any accumulator that sum is added;
  \<^item> the second sweep, run on these votes, gives the new cluster of the node and leaves the
    accumulator all zero: from any accumulator it zeroes the entries of the clusters of the
    targets, the entries the first sweep wrote, and no other entry.
  So no vote of one node is left for a later one.
\<close>

theorem accumulator_zero:
  assumes G: "graph_ok G" and perm: "permutation_ok G perm" and i: "i \<le> number_of_nodes G"
  shows "\<exists>st.
     lp_at coins r G ub perm j i = Some st \<and>
     hash_map st = replicate (number_of_nodes G) 0 \<and>
     (i < number_of_nodes G \<longrightarrow>
        (\<exists>st' h1 mv.
           process_node coins G ub st (perm ! i) = Some st' \<and>
           lp_at coins r G ub perm j (Suc i) = Some st' \<and>
           votes G st (perm ! i) = Some h1 \<and>
           length h1 = number_of_nodes G \<and>
           (\<forall>c < number_of_nodes G.
              h1 ! c = sum_list (map snd (filter (\<lambda>e. cluster_id st ! fst e = c)
                                            (out_edges G ! (perm ! i))))) \<and>
           scan_max coins ub (cluster_sizes st) (cluster_id st) (node_weight G ! (perm ! i))
             (cluster_id st ! (perm ! i)) (out_edges G ! (perm ! i))
             (h1, 0, cluster_id st ! (perm ! i), rnd st) =
             Some (hash_map st', mv, cluster_id st' ! (perm ! i), rnd st') \<and>
           hash_map st' = replicate (number_of_nodes G) 0) \<and>
        (\<forall>h. length h = number_of_nodes G \<longrightarrow>
           (\<exists>h'. scan_votes (cluster_id st) (out_edges G ! (perm ! i)) h = Some h' \<and>
                 length h' = number_of_nodes G \<and>
                 (\<forall>c < number_of_nodes G.
                    h' ! c = h ! c +
                      sum_list (map snd (filter (\<lambda>e. cluster_id st ! fst e = c)
                                           (out_edges G ! (perm ! i))))))) \<and>
        (\<forall>h mv mb rr. length h = number_of_nodes G \<longrightarrow>
           (\<exists>h' mv' mb' rr'.
              scan_max coins ub (cluster_sizes st) (cluster_id st) (node_weight G ! (perm ! i))
                (cluster_id st ! (perm ! i)) (out_edges G ! (perm ! i)) (h, mv, mb, rr) =
                Some (h', mv', mb', rr') \<and>
              length h' = number_of_nodes G \<and>
              (\<forall>c < number_of_nodes G.
                 h' ! c = (if c \<in> (\<lambda>e. cluster_id st ! fst e) ` set (out_edges G ! (perm ! i))
                           then 0 else h ! c)))))"
proof -
  let ?N = "number_of_nodes G"
  let ?u = "perm ! i"
  from lp_at_inv [OF assms] obtain st where
    st: "lp_at coins r G ub perm j i = Some st" and inv: "lp_inv G st" by blast
  from inv have zero: "hash_map st = replicate ?N 0"
    and len: "length (cluster_sizes st) = ?N" "length (cluster_id st) = ?N"
    and ids: "\<forall>c \<in> set (cluster_id st). c < ?N"
    by (auto simp: lp_inv_def)
  let ?cid = "cluster_id st"
  let ?es = "out_edges G ! ?u"
  let ?sum = "\<lambda>c. sum_list (map snd (filter (\<lambda>e. ?cid ! fst e = c) ?es))"
  have visit: "(\<exists>st' h1 mv.
           process_node coins G ub st ?u = Some st' \<and>
           lp_at coins r G ub perm j (Suc i) = Some st' \<and>
           votes G st ?u = Some h1 \<and> length h1 = ?N \<and>
           (\<forall>c < ?N. h1 ! c = ?sum c) \<and>
           scan_max coins ub (cluster_sizes st) ?cid (node_weight G ! ?u) (?cid ! ?u) ?es
             (h1, 0, ?cid ! ?u, rnd st) =
             Some (hash_map st', mv, cluster_id st' ! ?u, rnd st') \<and>
           hash_map st' = replicate ?N 0) \<and>
        (\<forall>h. length h = ?N \<longrightarrow>
           (\<exists>h'. scan_votes ?cid ?es h = Some h' \<and> length h' = ?N \<and>
                 (\<forall>c < ?N. h' ! c = h ! c + ?sum c))) \<and>
        (\<forall>h mv mb rr. length h = ?N \<longrightarrow>
           (\<exists>h' mv' mb' rr'.
              scan_max coins ub (cluster_sizes st) ?cid (node_weight G ! ?u) (?cid ! ?u) ?es
                (h, mv, mb, rr) = Some (h', mv', mb', rr') \<and>
              length h' = ?N \<and>
              (\<forall>c < ?N. h' ! c = (if c \<in> (\<lambda>e. ?cid ! fst e) ` set ?es then 0 else h ! c))))"
    if lt: "i < ?N"
  proof -
    from lp_at_visit [OF G perm lt, of coins r ub j] st obtain st' h1 mv where
      inv': "lp_at coins r G ub perm j (Suc i) = Some st'"
      and run: "process_node coins G ub st ?u = Some st'"
      and u: "?u < ?N"
      and h1: "votes G st ?u = Some h1" and lh1: "length h1 = ?N"
      and sm: "scan_max coins ub (cluster_sizes st) ?cid (node_weight G ! ?u) (?cid ! ?u) ?es
         (h1, 0, ?cid ! ?u, rnd st) = Some (hash_map st', mv, cluster_id st' ! ?u, rnd st')"
      by auto
    from G u len have b1: "\<forall>e \<in> set ?es. fst e < length ?cid" by (auto simp: graph_ok_def)
    have votes: "\<exists>h'. scan_votes ?cid ?es h = Some h' \<and> length h' = ?N \<and>
                   (\<forall>c < ?N. h' ! c = h ! c + ?sum c)"
      if "length h = ?N" for h :: "'a word list"
    proof -
      from ids that have "\<forall>c \<in> set ?cid. c < length h" by simp
      from scan_votes_sum [OF b1 this] that show ?thesis by simp
    qed
    have zeroed: "\<exists>h' mv' mb' rr'.
              scan_max coins ub (cluster_sizes st) ?cid (node_weight G ! ?u) (?cid ! ?u) ?es
                (h, mv, mb, rr) = Some (h', mv', mb', rr') \<and>
              length h' = ?N \<and>
              (\<forall>c < ?N. h' ! c = (if c \<in> (\<lambda>e. ?cid ! fst e) ` set ?es then 0 else h ! c))"
      if "length h = ?N" for h :: "'a word list" and mv mb rr
    proof -
      from ids that have b2: "\<forall>c \<in> set ?cid. c < length h" by simp
      from len that have b3: "length (cluster_sizes st) = length h" by simp
      from scan_max_ok [OF b1 b2 b3, of coins ub "node_weight G ! ?u" "?cid ! ?u" mv mb rr] that
      show ?thesis by (simp only:) blast
    qed
    from votes [of "hash_map st"] h1 zero
    have sums: "\<forall>c < ?N. h1 ! c = ?sum c" by (auto simp: votes_def)
    from lt have "Suc i \<le> ?N" by simp
    from lp_at_inv [OF G perm this, of coins r ub j] inv'
    have "hash_map st' = replicate ?N 0" by (auto simp: lp_inv_def)
    with run inv' h1 lh1 sums sm votes zeroed show ?thesis by blast
  qed
  with st zero show ?thesis by blast
qed

theorem accumulator_zero_witness:
  "\<exists>st.
     lp_at coins_true 0 example_graph 2 [2, 0, 4, 1, 3] 0 1 = Some st \<and>
     hash_map st = replicate (number_of_nodes example_graph) 0 \<and>
     (\<exists>st' h1 mv.
        process_node coins_true example_graph 2 st 0 = Some st' \<and>
        lp_at coins_true 0 example_graph 2 [2, 0, 4, 1, 3] 0 2 = Some st' \<and>
        votes example_graph st 0 = Some h1 \<and>
        h1 = [0, 2, 0, 0, 0] \<and>
        scan_max coins_true 2 (cluster_sizes st) (cluster_id st) (node_weight example_graph ! 0)
          (cluster_id st ! 0) (out_edges example_graph ! 0) (h1, 0, cluster_id st ! 0, rnd st) =
          Some (hash_map st', mv, cluster_id st' ! 0, rnd st') \<and>
        cluster_id st' ! 0 = 1 \<and>
        hash_map st' = replicate (number_of_nodes example_graph) 0)"
proof -
  have i: "1 \<le> number_of_nodes example_graph" "1 < number_of_nodes example_graph"
    by (simp_all add: example_graph_def number_of_nodes_def)
  have "\<exists>st.
     lp_at coins_true 0 example_graph 2 [2, 0, 4, 1, 3] 0 1 = Some st \<and>
     hash_map st = replicate (number_of_nodes example_graph) 0 \<and>
     (\<exists>st' h1 mv.
        process_node coins_true example_graph 2 st ([2, 0, 4, 1, 3] ! 1) = Some st' \<and>
        lp_at coins_true 0 example_graph 2 [2, 0, 4, 1, 3] 0 (Suc 1) = Some st' \<and>
        votes example_graph st ([2, 0, 4, 1, 3] ! 1) = Some h1 \<and>
        scan_max coins_true 2 (cluster_sizes st) (cluster_id st)
          (node_weight example_graph ! ([2, 0, 4, 1, 3] ! 1))
          (cluster_id st ! ([2, 0, 4, 1, 3] ! 1)) (out_edges example_graph ! ([2, 0, 4, 1, 3] ! 1))
          (h1, 0, cluster_id st ! ([2, 0, 4, 1, 3] ! 1), rnd st) =
          Some (hash_map st', mv, cluster_id st' ! ([2, 0, 4, 1, 3] ! 1), rnd st') \<and>
        hash_map st' = replicate (number_of_nodes example_graph) 0)"
    using accumulator_zero [OF graph_ok_example permutation_ok_example i(1),
        of coins_true 0 2 0] i(2)
    by blast
  then show ?thesis
    by (simp add: eval_simps example_graph_def eval_nat_numeral)
qed

text \<open>
  Claim C8. A node without outgoing edges never changes its cluster: whatever the
  permutation and the number of passes, its cluster id is its own index at every point of
  the propagation and in the vector handed to the compaction.
\<close>

theorem isolated_node_stays:
  assumes G: "graph_ok G" and perm: "permutation_ok G perm"
    and u: "u < number_of_nodes G" and iso: "out_edges G ! u = []"
    and i: "i \<le> number_of_nodes G"
  shows "(\<exists>st. lp_at coins r G ub perm j i = Some st \<and> cluster_id st ! u = u) \<and>
         (\<exists>st. lp_passes coins G ub perm j (lp_init G r) = Some st \<and> cluster_id st ! u = u)"
proof -
  let ?Q = "\<lambda>st. lp_inv G st \<and> cluster_id st ! u = u"
  have at: "\<exists>st. lp_at coins r G ub perm j i = Some st \<and> ?Q st"
    if "i \<le> number_of_nodes G" for i
  proof (rule lp_at_invariant [where Q = ?Q])
    fix st node assume Q: "?Q st" and node: "node < number_of_nodes G"
    then have inv: "lp_inv G st" and cu: "cluster_id st ! u = u" by auto
    from inv have len: "length (cluster_id st) = number_of_nodes G" by (simp add: lp_inv_def)
    from process_node_effect [OF G inv node, of coins ub] obtain st' h1 mv mb r' where
      run: "process_node coins G ub st node = Some st'" and inv': "lp_inv G st'"
      and sm: "scan_max coins ub (cluster_sizes st) (cluster_id st) (node_weight G ! node)
         (cluster_id st ! node) (out_edges G ! node) (h1, 0, cluster_id st ! node, rnd st) =
         Some (hash_map st', mv, mb, r')"
      and cid': "cluster_id st' = (cluster_id st)[node := mb]"
      by blast
    have "cluster_id st' ! u = u"
    proof (cases "node = u")
      case True
      with sm iso have "mb = cluster_id st ! u" by simp
      with cid' True cu u len show ?thesis by simp
    next
      case False
      with cid' cu show ?thesis by simp
    qed
    with run inv' show "\<exists>st'. process_node coins G ub st node = Some st' \<and> ?Q st'" by blast
  next
    show "?Q (lp_init G r)" using u by (simp add: lp_inv_init) (simp add: lp_init_def)
  qed (use perm that in \<open>simp_all add: lp_inv_reset\<close>)
  from at [of 0] obtain st0 where
    "lp_at coins r G ub perm j 0 = Some st0" "cluster_id st0 ! u = u" by auto
  with lp_at_0_passes [of coins r G ub perm j st0]
  have "\<exists>st. lp_passes coins G ub perm j (lp_init G r) = Some st \<and> cluster_id st ! u = u"
    by auto
  with at [OF i] show ?thesis by blast
qed

theorem isolated_node_stays_witness:
  "(\<exists>st. lp_at coins_true 0 example_graph 2 [2, 0, 4, 1, 3] 2 3 = Some st \<and>
         cluster_id st ! 4 = 4) \<and>
   (\<exists>st. lp_passes coins_true example_graph 2 [2, 0, 4, 1, 3] 2 (lp_init example_graph 0) = Some st \<and>
         cluster_id st ! 4 = 4)"
  using isolated_node_stays [OF graph_ok_example permutation_ok_example, of 4 3 coins_true 0 2 2]
  by (simp add: example_graph_def number_of_nodes_def)

text \<open>
  Claim C4. With \<open>label_iterations = 0\<close> no pass runs: the vector handed to the compaction is
  the singleton assignment, the compaction gives every node its own index as dense id, and the
  reported cluster count is the number of nodes.
\<close>

theorem zero_iterations:
  assumes "apply_to_graph \<longrightarrow> length (partition_index G) = number_of_nodes G"
  shows "lp_passes coins G ub perm (nat 0) (lp_init G r) = Some (lp_init G r) \<and>
         cluster_id (lp_init G r) = [0..<number_of_nodes G] \<and>
         label_propagation coins r apply_to_graph G ub perm 0 =
           Some (if apply_to_graph
                 then G\<lparr>partition_index := [0..<number_of_nodes G],
                        partition_count := number_of_nodes G\<rparr>
                 else G,
                 [0..<number_of_nodes G], number_of_nodes G, r)"
proof -
  from remap_cluster_ids_inv [of "[0..<number_of_nodes G]" G apply_to_graph] assms
  obtain m k cid' where
    inv: "remap_inv [0..<number_of_nodes G] (number_of_nodes G) (m, k, cid')"
    and run: "remap_cluster_ids G [0..<number_of_nodes G] apply_to_graph =
       Some (if apply_to_graph then G\<lparr>partition_index := cid', partition_count := k\<rparr> else G,
             cid', k)"
    by auto
  from remap_inv_identity [OF inv] run show ?thesis
    by (simp add: label_propagation_def lp_init_def)
qed

theorem zero_iterations_witness:
  "lp_passes coins_true example_graph 2 [2, 0, 4, 1, 3] (nat 0) (lp_init example_graph 0) =
     Some (lp_init example_graph 0) \<and>
   cluster_id (lp_init example_graph 0) = [0..<number_of_nodes example_graph] \<and>
   label_propagation coins_true 0 True example_graph 2 [2, 0, 4, 1, 3] 0 =
     Some (example_graph\<lparr>partition_index := [0..<number_of_nodes example_graph],
                         partition_count := number_of_nodes example_graph\<rparr>,
           [0..<number_of_nodes example_graph], number_of_nodes example_graph, 0)"
  using zero_iterations [of True example_graph coins_true 2 "[2, 0, 4, 1, 3]" 0]
  by (simp add: example_graph_def number_of_nodes_def)

text \<open>
  Claim C1. During the propagation, when the visit of a node moves it into a cluster other
  than its own, the size tracked for that cluster right after the move is at most
  \<open>block_upperbound\<close>. A node may stay where it is whatever the tracked size of its cluster:
  \<^item> when its own cluster has the greatest vote around it, it stays;
  \<^item> the tracked size of its own cluster has no influence on where it goes: with any other
    value \<open>x\<close> in that entry the visit ends in the same cluster;
  \<^item> at every edge into its own cluster the second sweep takes the own cluster as the best
    block exactly when the vote is greater than the best value, or equal to it with a random
    bit 1: the capacity is not asked, on a strict lead or on a tie;
  \<^item> the cluster of the node after the visit is the best block at the end of that sweep.
\<close>

theorem capacity_respect:
  assumes G: "graph_ok G" and perm: "permutation_ok G perm" and i: "i < number_of_nodes G"
  shows "\<exists>st st'.
     lp_at coins r G ub perm j i = Some st \<and>
     process_node coins G ub st (perm ! i) = Some st' \<and>
     lp_at coins r G ub perm j (Suc i) = Some st' \<and>
     (cluster_id st' ! (perm ! i) \<noteq> cluster_id st ! (perm ! i) \<longrightarrow>
        cluster_sizes st' ! (cluster_id st' ! (perm ! i)) \<le> ub) \<and>
     (own_cluster_leads G st (perm ! i) \<longrightarrow>
        cluster_id st' ! (perm ! i) = cluster_id st ! (perm ! i)) \<and>
     (\<forall>x. \<exists>st''.
        process_node coins G ub
          (st\<lparr>cluster_sizes := (cluster_sizes st)[cluster_id st ! (perm ! i) := x]\<rparr>) (perm ! i) =
          Some st'' \<and>
        cluster_id st'' = cluster_id st') \<and>
     (\<forall>k < length (out_edges G ! (perm ! i)).
        cluster_id st ! fst (out_edges G ! (perm ! i) ! k) = cluster_id st ! (perm ! i) \<longrightarrow>
        (\<exists>h mv mb rr.
           sweep_prefix coins G ub st (perm ! i) k = Some (h, mv, mb, rr) \<and>
           sweep_prefix coins G ub st (perm ! i) (Suc k) =
             Some (h[cluster_id st ! (perm ! i) := 0],
                   if mv < h ! (cluster_id st ! (perm ! i)) \<or>
                      h ! (cluster_id st ! (perm ! i)) = mv \<and> coins rr
                   then h ! (cluster_id st ! (perm ! i)) else mv,
                   if mv < h ! (cluster_id st ! (perm ! i)) \<or>
                      h ! (cluster_id st ! (perm ! i)) = mv \<and> coins rr
                   then cluster_id st ! (perm ! i) else mb,
                   if h ! (cluster_id st ! (perm ! i)) = mv then Suc rr else rr))) \<and>
     (\<exists>mv. sweep_prefix coins G ub st (perm ! i) (length (out_edges G ! (perm ! i))) =
             Some (hash_map st', mv, cluster_id st' ! (perm ! i), rnd st'))"
proof -
  let ?u = "perm ! i"
  let ?N = "number_of_nodes G"
  from lp_at_visit [OF assms, of coins r ub j] obtain st st' h1 mv where
    st: "lp_at coins r G ub perm j i = Some st" and inv: "lp_inv G st"
    and nxt: "lp_at coins r G ub perm j (Suc i) = Some st'"
    and run: "process_node coins G ub st ?u = Some st'"
    and u: "?u < ?N"
    and h1: "votes G st ?u = Some h1" and lh1: "length h1 = ?N"
    and sm: "scan_max coins ub (cluster_sizes st) (cluster_id st) (node_weight G ! ?u)
       (cluster_id st ! ?u) (out_edges G ! ?u) (h1, 0, cluster_id st ! ?u, rnd st) =
       Some (hash_map st', mv, cluster_id st' ! ?u, rnd st')"
    and mb: "cluster_id st' ! ?u < ?N"
    and sz': "cluster_sizes st' =
       ((cluster_sizes st)[cluster_id st ! ?u :=
           cluster_sizes st ! (cluster_id st ! ?u) - node_weight G ! ?u])
       [cluster_id st' ! ?u :=
          ((cluster_sizes st)[cluster_id st ! ?u :=
             cluster_sizes st ! (cluster_id st ! ?u) - node_weight G ! ?u])
          ! (cluster_id st' ! ?u) + node_weight G ! ?u]"
    by blast
  let ?cid = "cluster_id st"
  let ?sz = "cluster_sizes st"
  let ?es = "out_edges G ! ?u"
  let ?my = "?cid ! ?u"
  let ?mb = "cluster_id st' ! ?u"
  let ?nw = "node_weight G ! ?u"
  from inv have len: "length (hash_map st) = ?N" "length ?sz = ?N" "length ?cid = ?N"
    and ids: "\<forall>c \<in> set ?cid. c < ?N"
    by (auto simp: lp_inv_def)
  from G u len have b1: "\<forall>e \<in> set ?es. fst e < length ?cid" by (auto simp: graph_ok_def)
  from ids lh1 have b2: "\<forall>c \<in> set ?cid. c < length h1" by simp
  from len lh1 have b3: "length ?sz = length h1" by simp
  from ids u len have my: "?my < ?N" by simp
  have move: "cluster_sizes st' ! ?mb \<le> ub" if "?mb \<noteq> ?my"
  proof -
    from scan_max_ok [OF b1 b2 b3, of coins ub ?nw ?my 0 ?my "rnd st"] sm that
    have "?sz ! ?mb + ?nw \<le> ub" by auto
    moreover have "cluster_sizes st' ! ?mb = ?sz ! ?mb + ?nw"
      using that mb len by (subst sz') simp
    ultimately show ?thesis by simp
  qed
  have stay: "?mb = ?my" if "own_cluster_leads G st ?u"
  proof -
    from that h1 have ex: "\<exists>e \<in> set ?es. ?cid ! fst e = ?my"
      and lead: "\<forall>e \<in> set ?es. ?cid ! fst e \<noteq> ?my \<longrightarrow> h1 ! (?cid ! fst e) < h1 ! ?my"
      by (auto simp: own_cluster_leads_def)
    show ?thesis
      by (rule scan_max_own_leads [OF b1 b2 b3 sm lead]) (use ex in simp)
  qed
  have free: "\<exists>st''. process_node coins G ub (st\<lparr>cluster_sizes := ?sz[?my := x]\<rparr>) ?u = Some st'' \<and>
                cluster_id st'' = cluster_id st'" for x
  proof -
    let ?st2 = "st\<lparr>cluster_sizes := ?sz[?my := x]\<rparr>"
    from process_node_effect [OF G inv u, of coins ub] run
    obtain mbx where "cluster_id st' = ?cid[?u := mbx]" by auto
    moreover from this u len have "?mb = mbx" by simp
    ultimately have cid': "cluster_id st' = ?cid[?u := ?mb]" by simp
    from len ids have
      "length (hash_map ?st2) = ?N" "length (cluster_sizes ?st2) = ?N"
      "length (cluster_id ?st2) = ?N" "\<forall>c \<in> set (cluster_id ?st2). c < ?N"
      by simp_all
    from process_node_unfold [OF G u this, of coins ub] obtain g1 g2 mv2 mb2 r2 where
      sm2: "scan_max coins ub (?sz[?my := x]) ?cid ?nw ?my ?es (g1, 0, ?my, rnd st) =
              Some (g2, mv2, mb2, r2)"
      and sv2: "scan_votes ?cid ?es (hash_map st) = Some g1"
      and run2: "\<exists>st''. process_node coins G ub ?st2 ?u = Some st'' \<and>
                   cluster_id st'' = ?cid[?u := mb2]"
      by (auto simp del: scan_max.simps scan_votes.simps)
    from sv2 h1 have "g1 = h1" by (simp add: votes_def)
    with sm2 sm have "mb2 = ?mb" by (simp add: scan_max_sizes_irrelevant)
    with run2 cid' show ?thesis by simp
  qed
  have own: "\<exists>h mv mb rr.
       sweep_prefix coins G ub st ?u k = Some (h, mv, mb, rr) \<and>
       sweep_prefix coins G ub st ?u (Suc k) =
         Some (h[?my := 0],
               if mv < h ! ?my \<or> h ! ?my = mv \<and> coins rr then h ! ?my else mv,
               if mv < h ! ?my \<or> h ! ?my = mv \<and> coins rr then ?my else mb,
               if h ! ?my = mv then Suc rr else rr)"
    if k: "k < length ?es" and edge: "?cid ! fst (?es ! k) = ?my" for k
  proof -
    obtain t w where e: "?es ! k = (t, w)" by (cases "?es ! k")
    from b1 k e have t: "t < length ?cid" by (metis fst_conv nth_mem)
    from edge e have tm: "?cid ! t = ?my" by simp
    from b1 have p1: "\<forall>e \<in> set (take k ?es). fst e < length ?cid"
      by (meson in_set_takeD)
    from scan_max_ok [OF p1 b2 b3, of coins ub ?nw ?my 0 ?my "rnd st"]
    obtain h mv mb rr where
      pre: "scan_max coins ub ?sz ?cid ?nw ?my (take k ?es) (h1, 0, ?my, rnd st) =
              Some (h, mv, mb, rr)"
      and lh: "length h = length h1"
      by blast
    from my lh lh1 len have m1: "?my < length h" and m2: "?my < length ?sz" by simp_all
    have "take (Suc k) ?es = take k ?es @ [(t, w)]"
      using k e by (simp add: take_Suc_conv_app_nth)
    then have "scan_max coins ub ?sz ?cid ?nw ?my (take (Suc k) ?es) (h1, 0, ?my, rnd st) =
               scan_max coins ub ?sz ?cid ?nw ?my [(t, w)] (h, mv, mb, rr)"
      using pre by (simp only: scan_max_append Option.bind.simps)
    also note scan_max_own_edge [OF t tm m1 m2, of coins ub ?nw w mv mb rr]
    finally show ?thesis using pre h1 by (simp add: sweep_prefix_def)
  qed
  have whole: "sweep_prefix coins G ub st ?u (length ?es) = Some (hash_map st', mv, ?mb, rnd st')"
    using sm h1 by (simp add: sweep_prefix_def)
  from st run nxt move stay free own whole show ?thesis by blast
qed

theorem capacity_respect_witness:
  "(\<exists>st st'.
      lp_at coins_false 0 example_graph 2 [0, 1, 2, 3, 4] 0 0 = Some st \<and>
      process_node coins_false example_graph 2 st 0 = Some st' \<and>
      cluster_id st' ! 0 \<noteq> cluster_id st ! 0 \<and>
      cluster_sizes st' ! (cluster_id st' ! 0) \<le> 2) \<and>
   (\<exists>st st'.
      lp_at coins_false 0 example_graph 2 [0, 1, 2, 3, 4] 0 1 = Some st \<and>
      process_node coins_false example_graph 2 st 1 = Some st' \<and>
      own_cluster_leads example_graph st 1 \<and>
      2 \<le> cluster_sizes st ! (cluster_id st ! 1) \<and>
      cluster_id st' ! 1 = cluster_id st ! 1) \<and>
   (\<exists>st st'.
      lp_at coins_true 0 tie_graph 2 [0, 1, 2] 0 1 = Some st \<and>
      process_node coins_true tie_graph 2 st 1 = Some st' \<and>
      \<not> own_cluster_leads tie_graph st 1 \<and>
      2 \<le> cluster_sizes st ! (cluster_id st ! 1) \<and>
      cluster_id st ! fst (out_edges tie_graph ! 1 ! 1) = cluster_id st ! 1 \<and>
      sweep_prefix coins_true tie_graph 2 st 1 1 = Some ([0, 1, 0], 1, 2, 0) \<and>
      sweep_prefix coins_true tie_graph 2 st 1 2 = Some ([0, 0, 0], 1, 1, 1) \<and>
      cluster_id st' ! 1 = cluster_id st ! 1)"
proof -
  have i0: "0 < number_of_nodes example_graph" and i1: "1 < number_of_nodes example_graph"
    and t1: "1 < number_of_nodes tie_graph"
    by (simp_all add: example_graph_def tie_graph_def number_of_nodes_def)
  have a: "\<exists>st st'.
      lp_at coins_false 0 example_graph 2 [0, 1, 2, 3, 4] 0 0 = Some st \<and>
      process_node coins_false example_graph 2 st ([0, 1, 2, 3, 4] ! 0) = Some st' \<and>
      (cluster_id st' ! ([0, 1, 2, 3, 4] ! 0) \<noteq> cluster_id st ! ([0, 1, 2, 3, 4] ! 0) \<longrightarrow>
         cluster_sizes st' ! (cluster_id st' ! ([0, 1, 2, 3, 4] ! 0)) \<le> 2)"
    using capacity_respect [OF graph_ok_example permutation_ok_example_id i0,
        of coins_false 0 2 0]
    by blast
  have b: "\<exists>st st'.
      lp_at coins_false 0 example_graph 2 [0, 1, 2, 3, 4] 0 1 = Some st \<and>
      process_node coins_false example_graph 2 st ([0, 1, 2, 3, 4] ! 1) = Some st' \<and>
      (own_cluster_leads example_graph st ([0, 1, 2, 3, 4] ! 1) \<longrightarrow>
         cluster_id st' ! ([0, 1, 2, 3, 4] ! 1) = cluster_id st ! ([0, 1, 2, 3, 4] ! 1))"
    using capacity_respect [OF graph_ok_example permutation_ok_example_id i1,
        of coins_false 0 2 0]
    by blast
  have c: "\<exists>st st'.
      lp_at coins_true 0 tie_graph 2 [0, 1, 2] 0 1 = Some st \<and>
      process_node coins_true tie_graph 2 st ([0, 1, 2] ! 1) = Some st' \<and>
      (\<exists>mv. sweep_prefix coins_true tie_graph 2 st ([0, 1, 2] ! 1)
               (length (out_edges tie_graph ! ([0, 1, 2] ! 1))) =
             Some (hash_map st', mv, cluster_id st' ! ([0, 1, 2] ! 1), rnd st'))"
    using capacity_respect [OF graph_ok_tie permutation_ok_tie t1, of coins_true 0 2 0]
    by blast
  from a b c show ?thesis
    by (simp add: eval_simps sweep_prefix_def example_graph_def tie_graph_def)
qed

text \<open>
  Claim C3 reads: when no cluster around \<open>u\<close> yields an eligible vote above the initial best
  value 0, \<open>u\<close> keeps its cluster. It fails where an edge has weight 0: the vote of the
  neighbouring cluster is 0, it ties with the initial best value, and with a random bit 1 the
  node moves. Here node 0 starts in cluster 0 and ends in cluster 1.
\<close>

theorem keeps_cluster_counterexample:
  "lp_at coins_true 0 zero_edge_graph 2 [0, 1] 0 0 = Some (lp_init zero_edge_graph 0) \<and>
   no_eligible_vote_above_zero zero_edge_graph 2 (lp_init zero_edge_graph 0) 0 \<and>
   cluster_id (lp_init zero_edge_graph 0) = [0, 1] \<and>
   process_node coins_true zero_edge_graph 2 (lp_init zero_edge_graph 0) 0 =
     Some \<lparr>hash_map = [0, 0], cluster_sizes = [0, 2], cluster_id = [1, 1],
           change_counter = 1, rnd = 1\<rparr>"
  by (simp add: eval_simps zero_edge_graph_def)

text \<open>
  Claim C3, amended. When no cluster around \<open>u\<close> yields an eligible vote above 0, then after
  its visit \<open>u\<close> is in its old cluster, or in an eligible cluster around it whose vote is 0,
  and then one of the random bits drawn during the visit was 1.
\<close>

theorem keeps_cluster_without_positive_vote:
  assumes G: "graph_ok G" and perm: "permutation_ok G perm" and i: "i < number_of_nodes G"
  shows "\<exists>st st'.
     lp_at coins r G ub perm j i = Some st \<and>
     process_node coins G ub st (perm ! i) = Some st' \<and>
     lp_at coins r G ub perm j (Suc i) = Some st' \<and>
     (no_eligible_vote_above_zero G ub st (perm ! i) \<longrightarrow>
        cluster_id st' ! (perm ! i) = cluster_id st ! (perm ! i) \<or>
        won_tie_at_zero coins G ub st st' (perm ! i))"
proof -
  let ?u = "perm ! i"
  let ?N = "number_of_nodes G"
  from lp_at_visit [OF assms, of coins r ub j] obtain st st' h1 mv where
    st: "lp_at coins r G ub perm j i = Some st" and inv: "lp_inv G st"
    and nxt: "lp_at coins r G ub perm j (Suc i) = Some st'"
    and run: "process_node coins G ub st ?u = Some st'"
    and u: "?u < ?N"
    and h1: "votes G st ?u = Some h1" and lh1: "length h1 = ?N"
    and sm: "scan_max coins ub (cluster_sizes st) (cluster_id st) (node_weight G ! ?u)
       (cluster_id st ! ?u) (out_edges G ! ?u) (h1, 0, cluster_id st ! ?u, rnd st) =
       Some (hash_map st', mv, cluster_id st' ! ?u, rnd st')"
    by blast
  let ?cid = "cluster_id st"
  let ?sz = "cluster_sizes st"
  let ?es = "out_edges G ! ?u"
  let ?my = "?cid ! ?u"
  let ?mb = "cluster_id st' ! ?u"
  from inv have len: "length ?sz = ?N" "length ?cid = ?N"
    and ids: "\<forall>c \<in> set ?cid. c < ?N"
    by (auto simp: lp_inv_def)
  from G u len have b1: "\<forall>e \<in> set ?es. fst e < length ?cid" by (auto simp: graph_ok_def)
  from ids lh1 have b2: "\<forall>c \<in> set ?cid. c < length h1" by simp
  from len lh1 have b3: "length ?sz = length h1" by simp
  have "?mb = ?my \<or> won_tie_at_zero coins G ub st st' ?u"
    if "no_eligible_vote_above_zero G ub st ?u"
  proof -
    from that h1 have prem: "\<forall>e \<in> set ?es. \<not> (0 < h1 ! (?cid ! fst e) \<and>
           (?sz ! (?cid ! fst e) + node_weight G ! ?u \<le> ub \<or> ?cid ! fst e = ?my))"
      by (simp add: no_eligible_vote_above_zero_def eligible_def)
    from scan_max_no_positive [OF b1 b2 b3 sm prem] h1 show ?thesis
      by (auto simp: won_tie_at_zero_def eligible_def)
  qed
  with st run nxt show ?thesis by blast
qed

theorem keeps_cluster_without_positive_vote_witness:
  "\<exists>st st'.
     lp_at coins_true 0 zero_edge_graph 2 [0, 1] 0 0 = Some st \<and>
     process_node coins_true zero_edge_graph 2 st 0 = Some st' \<and>
     lp_at coins_true 0 zero_edge_graph 2 [0, 1] 0 1 = Some st' \<and>
     no_eligible_vote_above_zero zero_edge_graph 2 st 0 \<and>
     won_tie_at_zero coins_true zero_edge_graph 2 st st' 0"
  using keeps_cluster_without_positive_vote [OF graph_ok_zero_edge permutation_ok_zero_edge,
      of 0 coins_true 0 2 0]
  by (simp add: eval_simps zero_edge_graph_def)

end
